theory Spec2Isabelle
  imports Main "HOL-Library.Word"
begin

section \<open>The data of ctxlock.go\<close>

text \<open>
  \<^verbatim>\<open>type lockID uint64\<close>. The depth counters are Go \<^verbatim>\<open>int\<close>s, taken here on a 64-bit
  platform: a 64-bit word read in two's complement, whose \<open>+\<close> and \<open>-\<close> wrap around.
\<close>

type_synonym lockID = "64 word"
type_synonym go_int = "64 word"

text \<open>Goroutines are told apart by a number.\<close>

type_synonym tid = nat

text \<open>
  The two errors a \<^verbatim>\<open>context.Context\<close> reports from \<^verbatim>\<open>Err()\<close>; a nil error is \<open>None\<close>.
\<close>

datatype error = Canceled | DeadlineExceeded

text \<open>
  Keys and values of a context are \<^verbatim>\<open>interface{}\<close> values. A key is either a \<^verbatim>\<open>lockID\<close>
  (the only key type this package uses) or a key of some other type, which never equals a
  \<^verbatim>\<open>lockID\<close>. A value is either an \<^verbatim>\<open>int\<close>, for which the type assertion \<^verbatim>\<open>.(int)\<close> of
  \<^verbatim>\<open>_depth\<close> succeeds, or a value of another type.
\<close>

datatype key = LockKey lockID | OtherKey nat

datatype any = IntVal go_int | OtherVal nat

text \<open>
  A \<^verbatim>\<open>context.Context\<close> is an immutable chain: \<^verbatim>\<open>context.Background()\<close>, a context derived with
  a cancellation of its own (\<^verbatim>\<open>WithCancel\<close>, \<^verbatim>\<open>WithTimeout\<close>), named by a number, and
  \<^verbatim>\<open>context.WithValue(parent, key, val)\<close>. A nil \<^verbatim>\<open>context.Context\<close> is \<open>None\<close> of
  \<open>context option\<close>.
\<close>

datatype "context" = Background | WithCancel "context" nat | WithValue "context" key any

text \<open>\<^verbatim>\<open>ctx.Value(key)\<close>: the innermost binding of the key, nil (\<open>None\<close>) when there is none.\<close>

fun Value :: "context \<Rightarrow> key \<Rightarrow> any option" where
  "Value Background k = None"
| "Value (WithCancel parent n) k = Value parent k"
| "Value (WithValue parent k' v) k = (if k = k' then Some v else Value parent k)"

text \<open>
  Which cancellations have fired, and with which error, changes with time; a \<open>cancels\<close> is
  the state of the cancellations at the moment the code looks. \<^verbatim>\<open>ctx.Err()\<close> is non-nil exactly
  when \<^verbatim>\<open>ctx.Done()\<close> is closed: the context's own cancellation fired, or one of an ancestor.
\<close>

type_synonym cancels = "nat \<Rightarrow> error option"

fun Err :: "cancels \<Rightarrow> context \<Rightarrow> error option" where
  "Err fired Background = None"
| "Err fired (WithCancel parent n) =
     (case fired n of Some e \<Rightarrow> Some e | None \<Rightarrow> Err fired parent)"
| "Err fired (WithValue parent k v) = Err fired parent"

text \<open>
  \<^verbatim>\<open>sync.Cond\<close>: the goroutines parked in \<^verbatim>\<open>Wait\<close>, oldest first. \<^verbatim>\<open>Signal\<close> wakes the oldest
  one if there is any, \<^verbatim>\<open>Broadcast\<close> wakes all of them, \<^verbatim>\<open>Wait\<close> parks the caller.
\<close>

type_synonym Cond = "tid list"

definition Signal :: "Cond \<Rightarrow> Cond" where
  "Signal ws = (case ws of [] \<Rightarrow> [] | w # rest \<Rightarrow> rest)"

definition Broadcast :: "Cond \<Rightarrow> Cond" where
  "Broadcast ws = []"

definition Wait :: "tid \<Rightarrow> Cond \<Rightarrow> Cond" where
  "Wait me ws = ws @ [me]"

text \<open>
  \<^verbatim>\<open>type ContextLock struct { cond *sync.Cond; held bool; mu sync.Mutex; id lockID }\<close>.
  The pointer \<open>cond\<close> is nil (\<open>None\<close>) in the zero value. The mutex \<open>mu\<close> is not a field of
  the model: every method takes it on entry and gives it up on return or inside
  \<^verbatim>\<open>cond.Wait()\<close>, so the code between two such points runs as one step and is one function
  here. The field \<open>id\<close> is called \<open>id_f\<close>.
\<close>

record ContextLock =
  cond :: "Cond option"
  held :: bool
  id_f :: lockID

definition zero_value :: ContextLock where
  "zero_value = \<lparr>cond = None, held = False, id_f = 0\<rparr>"

text \<open>
  What a step of a method ends in: it returns a context and an error (each may be nil), it
  parks the goroutine in \<^verbatim>\<open>cond.Wait()\<close>, or it panics on the nil \<open>cond\<close> pointer.
\<close>

datatype result = Return "context option" "error option" | Blocked | Panic

section \<open>The private methods\<close>

text \<open>
  \<^verbatim>\<open>for c.id == 0 { rand.Seed(time.Now().UnixNano()); c.id = lockID(rand.Uint64()) }\<close>.
  The numbers drawn are the environment's: \<open>rnd n\<close> is the n-th draw of the call. The loop
  runs for as long as zero is drawn, so it is a partial function: \<open>None\<close> when it never ends.
\<close>

partial_function (option) c_setup_loop :: "(nat \<Rightarrow> lockID) \<Rightarrow> nat \<Rightarrow> lockID \<Rightarrow> lockID option" where
  "c_setup_loop rnd n i = (if i = 0 then c_setup_loop rnd (Suc n) (rnd n) else Some i)"

text \<open>\<^verbatim>\<open>_setup\<close>: a new \<^verbatim>\<open>sync.Cond\<close> with nobody waiting if there is none, then the loop.\<close>

definition c_setup :: "(nat \<Rightarrow> lockID) \<Rightarrow> ContextLock \<Rightarrow> ContextLock option" where
  "c_setup rnd c =
     (let c1 = (if cond c = None then c\<lparr>cond := Some []\<rparr> else c)
      in case c_setup_loop rnd 0 (id_f c1) of
           None \<Rightarrow> None
         | Some i \<Rightarrow> Some (c1\<lparr>id_f := i\<rparr>))"

text \<open>\<^verbatim>\<open>_depth\<close>: the int stored under the lock's id, 0 when there is none or it is not an int.\<close>

definition c_depth :: "ContextLock \<Rightarrow> context \<Rightarrow> go_int" where
  "c_depth c ctx = (case Value ctx (LockKey (id_f c)) of Some (IntVal d) \<Rightarrow> d | _ \<Rightarrow> 0)"

text \<open>
  \<^verbatim>\<open>_withDepth\<close>: when \<^verbatim>\<open>ctx.Done()\<close> is closed, broadcast and return a nil context with
  \<^verbatim>\<open>ctx.Err()\<close>; otherwise return the context extended with the new depth.
\<close>

definition c_withDepth :: "cancels \<Rightarrow> ContextLock \<Rightarrow> context \<Rightarrow> go_int \<Rightarrow> result \<times> ContextLock" where
  "c_withDepth fired c ctx v =
     (case Err fired ctx of
        Some e \<Rightarrow>
          (case cond c of
             None \<Rightarrow> (Panic, c)
           | Some ws \<Rightarrow> (Return None (Some e), c\<lparr>cond := Some (Broadcast ws)\<rparr>))
      | None \<Rightarrow> (Return (Some (WithValue ctx (LockKey (id_f c)) (IntVal v))) None, c))"

text \<open>
  \<^verbatim>\<open>_wait\<close> starts a goroutine that, once \<^verbatim>\<open>ctx.Done()\<close> is closed, stores \<^verbatim>\<open>ctx.Err()\<close> in the
  result and broadcasts; the caller parks in \<^verbatim>\<open>cond.Wait()\<close> and returns the result when it
  is woken. Whether the watcher has stored its error by then is the scheduler's choice
  \<open>stored\<close>; when the context is not done there is nothing to store.
\<close>

definition c_wait_result :: "cancels \<Rightarrow> bool \<Rightarrow> context \<Rightarrow> error option" where
  "c_wait_result fired stored ctx = (if stored then Err fired ctx else None)"

section \<open>Lock\<close>

text \<open>
  The loop \<^verbatim>\<open>for c.held { if err := c._wait(ctx); err != nil { return ctx, err } }\<close> followed by
  \<^verbatim>\<open>c.held = true\<close> and \<^verbatim>\<open>return c._withDepth(ctx, depth+1)\<close>, entered at the loop's head with
  the mutex held (the unused method \<^verbatim>\<open>_lock\<close> is the same loop). While the lock is held the
  goroutine \<open>me\<close> parks in \<^verbatim>\<open>cond.Wait()\<close>, which gives the mutex up.
\<close>

definition Lock_loop :: "cancels \<Rightarrow> tid \<Rightarrow> ContextLock \<Rightarrow> context \<Rightarrow> go_int \<Rightarrow> result \<times> ContextLock" where
  "Lock_loop fired me c ctx depth =
     (if held c then
        (case cond c of
           None \<Rightarrow> (Panic, c)
         | Some ws \<Rightarrow> (Blocked, c\<lparr>cond := Some (Wait me ws)\<rparr>))
      else c_withDepth fired (c\<lparr>held := True\<rparr>) ctx (depth + 1))"

text \<open>
  \<^verbatim>\<open>if c.id == 0 { c._setup() }\<close>, the first statement of \<^verbatim>\<open>Lock\<close> under the mutex, and then
  \<^verbatim>\<open>Lock\<close> from its entry to its return or its first \<^verbatim>\<open>cond.Wait()\<close>. \<open>None\<close>: the loop
  of \<^verbatim>\<open>_setup\<close> never ends.
\<close>

definition Lock_init :: "(nat \<Rightarrow> lockID) \<Rightarrow> ContextLock \<Rightarrow> ContextLock option" where
  "Lock_init rnd c = (if id_f c = 0 then c_setup rnd c else Some c)"

definition Lock :: "(nat \<Rightarrow> lockID) \<Rightarrow> cancels \<Rightarrow> tid \<Rightarrow> ContextLock \<Rightarrow> context \<Rightarrow> (result \<times> ContextLock) option" where
  "Lock rnd fired me c ctx =
     (case Lock_init rnd c of
        None \<Rightarrow> None
      | Some c1 \<Rightarrow>
          Some (let depth = c_depth c1 ctx
                in if depth = 0 then Lock_loop fired me c1 ctx depth
                   else c_withDepth fired c1 ctx (depth + 1)))"

text \<open>
  \<^verbatim>\<open>Lock\<close> from the moment \<^verbatim>\<open>cond.Wait()\<close> returns, the mutex taken again: \<^verbatim>\<open>_wait\<close> returns
  its result; a non-nil one ends \<^verbatim>\<open>Lock\<close> with the caller's context, otherwise the loop goes
  round. The loop is only ever entered with depth 0.
\<close>

definition Lock_wake :: "cancels \<Rightarrow> bool \<Rightarrow> tid \<Rightarrow> ContextLock \<Rightarrow> context \<Rightarrow> result \<times> ContextLock" where
  "Lock_wake fired stored me c ctx =
     (case c_wait_result fired stored ctx of
        Some e \<Rightarrow> (Return (Some ctx) (Some e), c)
      | None \<Rightarrow> Lock_loop fired me c ctx 0)"

section \<open>Unlock\<close>

text \<open>
  The \<^verbatim>\<open>switch depth\<close> of \<^verbatim>\<open>Unlock\<close> falls through from case to case, so each label is a
  function that ends in the next one: \<^verbatim>\<open>default\<close> decrements a positive depth and returns
  through \<^verbatim>\<open>_withDepth\<close>; \<^verbatim>\<open>case 1\<close> clears \<open>held\<close> and signals first; \<^verbatim>\<open>case 0\<close> returns
  the context as it is when the lock is not held, and is \<^verbatim>\<open>case 1\<close> otherwise. Before the
  switch, a lock whose identifier is still zero returns the context as it is.
\<close>

definition Unlock_default :: "cancels \<Rightarrow> ContextLock \<Rightarrow> context \<Rightarrow> go_int \<Rightarrow> result \<times> ContextLock" where
  "Unlock_default fired c ctx depth =
     c_withDepth fired c ctx (if 0 <s depth then depth - 1 else depth)"

definition Unlock_case1 :: "cancels \<Rightarrow> ContextLock \<Rightarrow> context \<Rightarrow> go_int \<Rightarrow> result \<times> ContextLock" where
  "Unlock_case1 fired c ctx depth =
     (case cond c of
        None \<Rightarrow> (Panic, c\<lparr>held := False\<rparr>)
      | Some ws \<Rightarrow> Unlock_default fired (c\<lparr>held := False, cond := Some (Signal ws)\<rparr>) ctx depth)"

definition Unlock :: "cancels \<Rightarrow> ContextLock \<Rightarrow> context \<Rightarrow> result \<times> ContextLock" where
  "Unlock fired c ctx =
     (if id_f c = 0 then (Return (Some ctx) None, c)
      else let depth = c_depth c ctx
           in if depth = 0 then
                (if \<not> held c then (Return (Some ctx) None, c)
                 else Unlock_case1 fired c ctx depth)
              else if depth = 1 then Unlock_case1 fired c ctx depth
              else Unlock_default fired c ctx depth)"

section \<open>Clear\<close>

text \<open>
  \<^verbatim>\<open>if c.held { return c._withDepth(ctx, 0) }; return ctx, nil\<close>, under the mutex.
\<close>

definition Clear :: "cancels \<Rightarrow> ContextLock \<Rightarrow> context \<Rightarrow> result \<times> ContextLock" where
  "Clear fired c ctx =
     (if held c then c_withDepth fired c ctx 0 else (Return (Some ctx) None, c))"

section \<open>Sequences of calls on one lock\<close>

text \<open>
  The states a lock can be in after any calls of \<^verbatim>\<open>Lock\<close>, \<^verbatim>\<open>Unlock\<close> and \<^verbatim>\<open>Clear\<close>, by any
  goroutines, with any contexts, random draws and cancellations, starting from the zero
  value. Beside the lock the state holds the goroutines that are parked inside \<^verbatim>\<open>Lock\<close>, each
  with the context it called \<^verbatim>\<open>Lock\<close> with: only such a goroutine can go on from
  \<^verbatim>\<open>cond.Wait()\<close>, and only after a \<^verbatim>\<open>Signal\<close> or \<^verbatim>\<open>Broadcast\<close> took it off the list of waiters.
  The last rule is the \<^verbatim>\<open>Broadcast\<close> of a watcher goroutine started by \<^verbatim>\<open>_wait\<close>.
\<close>

definition park :: "result \<Rightarrow> tid \<Rightarrow> context \<Rightarrow> (tid \<rightharpoonup> context) \<Rightarrow> (tid \<rightharpoonup> context)" where
  "park r me ctx parked = (if r = Blocked then parked(me \<mapsto> ctx) else parked(me := None))"

inductive reach :: "ContextLock \<Rightarrow> (tid \<rightharpoonup> context) \<Rightarrow> bool" where
  reach_zero: "reach zero_value (\<lambda>t. None)"
| reach_Lock:
    "reach c parked \<Longrightarrow> parked me = None \<Longrightarrow> Lock rnd fired me c ctx = Some (r, c')
     \<Longrightarrow> reach c' (park r me ctx parked)"
| reach_Lock_wake:
    "reach c parked \<Longrightarrow> parked me = Some ctx \<Longrightarrow> cond c = Some ws \<Longrightarrow> me \<notin> set ws
     \<Longrightarrow> Lock_wake fired stored me c ctx = (r, c')
     \<Longrightarrow> reach c' (park r me ctx parked)"
| reach_Unlock:
    "reach c parked \<Longrightarrow> Unlock fired c ctx = (r, c') \<Longrightarrow> reach c' parked"
| reach_Clear:
    "reach c parked \<Longrightarrow> Clear fired c ctx = (r, c') \<Longrightarrow> reach c' parked"
| reach_watcher:
    "reach c parked \<Longrightarrow> cond c = Some ws \<Longrightarrow> reach (c\<lparr>cond := Some (Broadcast ws)\<rparr>) parked"

section \<open>Call paths that share one lock\<close>

text \<open>
  A call path is one goroutine that calls \<^verbatim>\<open>Lock\<close> and \<^verbatim>\<open>Unlock\<close> the way the package comment
  shows: \<^verbatim>\<open>if ctx, err = f.Lock(ctx); err != nil { return err }; defer f.Unlock(ctx)\<close>. It
  starts with a context \<open>p_base\<close>; \<open>p_nest\<close> holds the contexts returned by its \<^verbatim>\<open>Lock\<close> calls
  that returned a nil error and are not yet matched by their \<^verbatim>\<open>Unlock\<close>, innermost first; the
  path is between a successful \<^verbatim>\<open>Lock\<close> and its matching \<^verbatim>\<open>Unlock\<close> exactly when \<open>p_nest\<close> is
  not empty. \<open>p_parked\<close> says that the path is inside \<^verbatim>\<open>Lock\<close>, parked in \<^verbatim>\<open>cond.Wait()\<close>.
\<close>

record path =
  p_base :: "context"
  p_nest :: "context list"
  p_parked :: bool

text \<open>The context the path passes to its next call: the one its innermost \<^verbatim>\<open>Lock\<close> returned.\<close>

definition cur :: "path \<Rightarrow> context" where
  "cur p = (case p_nest p of [] \<Rightarrow> p_base p | ctx # rest \<Rightarrow> ctx)"

text \<open>
  What a path does with the result of a step of \<^verbatim>\<open>Lock\<close>: with a nil error it goes on with the
  returned context, parked it waits, and with an error (or a panic) it gives up the call.
\<close>

fun after_Lock :: "result \<Rightarrow> path \<Rightarrow> path" where
  "after_Lock (Return (Some ctx') None) p = p\<lparr>p_nest := ctx' # p_nest p, p_parked := False\<rparr>"
| "after_Lock Blocked p = p\<lparr>p_parked := True\<rparr>"
| "after_Lock r p = p\<lparr>p_parked := False\<rparr>"

text \<open>
  Every nested \<^verbatim>\<open>Lock\<close> adds a node to the chain of contexts, so a path cannot nest as many
  calls as an \<^verbatim>\<open>int\<close> can count: the nesting stays within the largest \<^verbatim>\<open>int\<close>.
\<close>

definition max_nest :: nat where
  "max_nest = 2 ^ 63 - 1"

text \<open>
  The lock, the cancellations that have fired, and the paths. A step is one method step of
  one path, run under the mutex and therefore as a whole: a \<^verbatim>\<open>Lock\<close> with the path's current
  context, the return of a woken path from \<^verbatim>\<open>cond.Wait()\<close>, the \<^verbatim>\<open>Unlock\<close> that matches the
  path's innermost \<^verbatim>\<open>Lock\<close>, called with the context that \<^verbatim>\<open>Lock\<close> returned, or a \<^verbatim>\<open>Clear\<close>. The
  environment fires a cancellation, and a watcher goroutine of \<^verbatim>\<open>_wait\<close> broadcasts.
\<close>

record system =
  sys_lock :: ContextLock
  sys_fired :: cancels
  sys_paths :: "tid \<Rightarrow> path"

inductive step :: "(nat \<Rightarrow> lockID) \<Rightarrow> system \<Rightarrow> system \<Rightarrow> bool" for rnd where
  step_Lock:
    "p = sys_paths s t \<Longrightarrow> \<not> p_parked p \<Longrightarrow> length (p_nest p) < max_nest
     \<Longrightarrow> Lock rnd (sys_fired s) t (sys_lock s) (cur p) = Some (r, c')
     \<Longrightarrow> step rnd s (s\<lparr>sys_lock := c', sys_paths := (sys_paths s)(t := after_Lock r p)\<rparr>)"
| step_Lock_wake:
    "p = sys_paths s t \<Longrightarrow> p_parked p \<Longrightarrow> cond (sys_lock s) = Some ws \<Longrightarrow> t \<notin> set ws
     \<Longrightarrow> Lock_wake (sys_fired s) stored t (sys_lock s) (cur p) = (r, c')
     \<Longrightarrow> step rnd s (s\<lparr>sys_lock := c', sys_paths := (sys_paths s)(t := after_Lock r p)\<rparr>)"
| step_Unlock:
    "p = sys_paths s t \<Longrightarrow> \<not> p_parked p \<Longrightarrow> p_nest p = ctx # rest
     \<Longrightarrow> Unlock (sys_fired s) (sys_lock s) ctx = (r, c')
     \<Longrightarrow> step rnd s (s\<lparr>sys_lock := c', sys_paths := (sys_paths s)(t := p\<lparr>p_nest := rest\<rparr>)\<rparr>)"
| step_Clear:
    "p = sys_paths s t \<Longrightarrow> \<not> p_parked p
     \<Longrightarrow> Clear (sys_fired s) (sys_lock s) (cur p) = (r, c')
     \<Longrightarrow> step rnd s (s\<lparr>sys_lock := c'\<rparr>)"
| step_cancel:
    "sys_fired s n = None \<Longrightarrow> step rnd s (s\<lparr>sys_fired := (sys_fired s)(n \<mapsto> e)\<rparr>)"
| step_watcher:
    "cond (sys_lock s) = Some ws
     \<Longrightarrow> step rnd s (s\<lparr>sys_lock := (sys_lock s)\<lparr>cond := Some (Broadcast ws)\<rparr>\<rparr>)"

text \<open>
  At the start the lock is the zero value and no path has called it. Every path starts at
  depth 0 for the lock: its context holds no depth under the identifier of the lock, which is
  the one the lazy setup is going to draw.
\<close>

definition initial :: "(nat \<Rightarrow> lockID) \<Rightarrow> system \<Rightarrow> bool" where
  "initial rnd s \<longleftrightarrow>
     sys_lock s = zero_value
     \<and> (\<forall>t. p_nest (sys_paths s t) = [] \<and> \<not> p_parked (sys_paths s t)
            \<and> (\<forall>c1. Lock_init rnd zero_value = Some c1 \<longrightarrow> c_depth c1 (p_base (sys_paths s t)) = 0))"

inductive run :: "(nat \<Rightarrow> lockID) \<Rightarrow> system \<Rightarrow> bool" for rnd where
  run_initial: "initial rnd s \<Longrightarrow> run rnd s"
| run_step: "run rnd s \<Longrightarrow> step rnd s s' \<Longrightarrow> run rnd s'"

section \<open>Invariants\<close>

text \<open>A held lock has its identifier, and a lock with an identifier has its \<^verbatim>\<open>sync.Cond\<close>.\<close>

definition lock_inv :: "ContextLock \<Rightarrow> bool" where
  "lock_inv c \<longleftrightarrow> (held c \<longrightarrow> id_f c \<noteq> 0) \<and> (id_f c \<noteq> 0 \<longrightarrow> cond c \<noteq> None)"

text \<open>The identifier the lock has, or is going to draw.\<close>

definition assigned_id :: "(nat \<Rightarrow> lockID) \<Rightarrow> ContextLock \<Rightarrow> lockID option" where
  "assigned_id rnd c = (if id_f c = 0 then c_setup_loop rnd 0 0 else Some (id_f c))"

definition depth_under :: "lockID \<Rightarrow> context \<Rightarrow> go_int" where
  "depth_under i ctx = (case Value ctx (LockKey i) of Some (IntVal d) \<Rightarrow> d | _ \<Rightarrow> 0)"

text \<open>The contexts of a path's nested calls carry the depths n, ..., 2, 1, innermost first.\<close>

fun nest_ok :: "ContextLock \<Rightarrow> context list \<Rightarrow> bool" where
  "nest_ok c [] = True"
| "nest_ok c (ctx # rest) = (c_depth c ctx = of_nat (Suc (length rest)) \<and> nest_ok c rest)"

definition path_ok :: "(nat \<Rightarrow> lockID) \<Rightarrow> ContextLock \<Rightarrow> path \<Rightarrow> bool" where
  "path_ok rnd c p \<longleftrightarrow>
     (\<forall>i. assigned_id rnd c = Some i \<longrightarrow> depth_under i (p_base p) = 0)
     \<and> nest_ok c (p_nest p) \<and> length (p_nest p) \<le> max_nest
     \<and> (p_parked p \<longrightarrow> p_nest p = [] \<and> id_f c \<noteq> 0)
     \<and> (p_nest p \<noteq> [] \<longrightarrow> held c)"

definition sys_inv :: "(nat \<Rightarrow> lockID) \<Rightarrow> system \<Rightarrow> bool" where
  "sys_inv rnd s \<longleftrightarrow>
     lock_inv (sys_lock s)
     \<and> (\<forall>t. path_ok rnd (sys_lock s) (sys_paths s t))
     \<and> (\<forall>t t'. p_nest (sys_paths s t) \<noteq> [] \<longrightarrow> p_nest (sys_paths s t') \<noteq> [] \<longrightarrow> t = t')"

section \<open>Example inputs\<close>

text \<open>No cancellation has fired; every cancellation has fired; a random source that draws 7.\<close>

definition none_fired :: cancels where
  "none_fired n = None"

definition all_fired :: cancels where
  "all_fired n = Some Canceled"

definition draws7 :: "nat \<Rightarrow> lockID" where
  "draws7 n = 7"

text \<open>An initialised lock that is held while goroutines 5 and 6 wait for it, and the same lock unheld.\<close>

definition held_lock :: ContextLock where
  "held_lock = \<lparr>cond = Some [5, 6], held = True, id_f = 7\<rparr>"

definition free_lock :: ContextLock where
  "free_lock = \<lparr>cond = Some [], held = False, id_f = 7\<rparr>"

text \<open>A cancellable context, and the same context carrying depth 1 and depth 2 for lock 7.\<close>

definition ctx0 :: "context" where
  "ctx0 = WithCancel Background 0"

definition ctx1 :: "context" where
  "ctx1 = WithValue ctx0 (LockKey 7) (IntVal 1)"

definition ctx2 :: "context" where
  "ctx2 = WithValue ctx1 (LockKey 7) (IntVal 2)"

text \<open>Nobody is parked; two paths that have not called the lock yet, and a system of such paths.\<close>

definition nobody :: "tid \<rightharpoonup> context" where
  "nobody t = None"

definition fresh_path :: path where
  "fresh_path = \<lparr>p_base = ctx0, p_nest = [], p_parked = False\<rparr>"

definition fresh_paths :: "tid \<Rightarrow> path" where
  "fresh_paths t = fresh_path"

definition start :: system where
  "start = \<lparr>sys_lock = zero_value, sys_fired = none_fired, sys_paths = fresh_paths\<rparr>"

text \<open>Path 0 holds the lock and path 1 is parked in its \<^verbatim>\<open>Lock\<close>.\<close>

definition one_inside :: system where
  "one_inside =
     \<lparr>sys_lock = \<lparr>cond = Some [1], held = True, id_f = 7\<rparr>, sys_fired = none_fired,
      sys_paths = fresh_paths(0 := fresh_path\<lparr>p_nest := [ctx1]\<rparr>,
                              1 := fresh_path\<lparr>p_parked := True\<rparr>)\<rparr>"

section \<open>Facts about the private methods\<close>

lemma c_setup_loop_nonzero: "i \<noteq> 0 \<Longrightarrow> c_setup_loop rnd n i = Some i"
  by (subst c_setup_loop.simps) simp

lemma c_setup_loop_zero: "c_setup_loop rnd n 0 = c_setup_loop rnd (Suc n) (rnd n)"
  by (subst c_setup_loop.simps) simp

lemma c_setup_loop_result:
  assumes "c_setup_loop rnd n i = Some r"
  shows "r \<noteq> 0 \<and> (i \<noteq> 0 \<longrightarrow> r = i) \<and> (i = 0 \<longrightarrow> (\<exists>m. r = rnd m))"
proof (induction rnd n i r rule: c_setup_loop.raw_induct)
  case (1 loop rnd n i r)
  show ?case
  proof (cases "i = 0")
    case True
    with 1 have "loop rnd (Suc n) (rnd n) = Some r"
      by simp
    from "1.IH"[OF this] True show ?thesis by auto
  next
    case False
    with 1 show ?thesis by simp
  qed
qed (fact assms)

lemma c_setup_loop_ends: "rnd (k + d) \<noteq> 0 \<Longrightarrow> \<exists>i. c_setup_loop rnd k 0 = Some i"
proof (induction d arbitrary: k)
  case 0
  then show ?case by (simp add: c_setup_loop_zero c_setup_loop_nonzero)
next
  case (Suc d)
  show ?case
  proof (cases "rnd k = 0")
    case True
    from Suc.prems have "rnd (Suc k + d) \<noteq> 0" by simp
    from Suc.IH[OF this] obtain i where "c_setup_loop rnd (Suc k) 0 = Some i" by blast
    with True have "c_setup_loop rnd (Suc k) (rnd k) = Some i" by simp
    then show ?thesis by (subst c_setup_loop_zero) blast
  next
    case False
    then show ?thesis by (simp add: c_setup_loop_zero c_setup_loop_nonzero)
  qed
qed

lemma c_setup_Some:
  assumes "c_setup rnd c = Some c1"
  shows "id_f c1 \<noteq> 0" "cond c1 \<noteq> None" "held c1 = held c"
    "cond c \<noteq> None \<Longrightarrow> cond c1 = cond c" "cond c = None \<Longrightarrow> cond c1 = Some []"
    "id_f c = 0 \<Longrightarrow> \<exists>n. id_f c1 = rnd n" "id_f c \<noteq> 0 \<Longrightarrow> id_f c1 = id_f c"
  using assms c_setup_loop_result[of rnd 0 "id_f c"]
  by (auto simp: c_setup_def Let_def split: option.splits if_splits)

lemma Lock_init_assigned: "id_f c \<noteq> 0 \<Longrightarrow> Lock_init rnd c = Some c"
  by (simp add: Lock_init_def)

lemma Lock_init_Some:
  assumes "Lock_init rnd c = Some c1"
  shows "id_f c1 \<noteq> 0 \<and> held c1 = held c
    \<and> (id_f c \<noteq> 0 \<longrightarrow> id_f c1 = id_f c)
    \<and> (cond c \<noteq> None \<longrightarrow> cond c1 = cond c)
    \<and> (id_f c = 0 \<longrightarrow> cond c1 \<noteq> None \<and> (\<exists>n. id_f c1 = rnd n))"
proof (cases "id_f c = 0")
  case True
  with assms have s: "c_setup rnd c = Some c1"
    by (simp add: Lock_init_def)
  from c_setup_Some[OF s] True show ?thesis
    by blast
next
  case False
  with assms have "c1 = c"
    by (simp add: Lock_init_def)
  with False show ?thesis
    by simp
qed

lemma c_depth_WithValue [simp]:
  "c_depth c (WithValue ctx (LockKey (id_f c)) (IntVal v)) = v"
  by (simp add: c_depth_def)

lemma sle_1_nonzero: "1 \<le>s (N :: go_int) \<Longrightarrow> N \<noteq> 0"
  by (auto simp: word_sle_eq)

lemma sint_succ: "sint (N :: go_int) < 2 ^ 63 - 1 \<Longrightarrow> sint (N + 1) = sint N + 1"
  using sint_ge[of N] by (simp add: sint_word_ariths signed_take_bit_int_eq_self)

section \<open>Facts about the steps of the methods\<close>

lemma Signal_simps [simp]: "Signal [] = []" "Signal (w # rest) = rest"
  by (simp_all add: Signal_def)

lemma sless_0_cases: "\<not> 0 <s (0 :: go_int)" "0 <s (1 :: go_int)"
  "1 <s (d :: go_int) \<Longrightarrow> 0 <s d \<and> d \<noteq> 0 \<and> d \<noteq> 1"
  by (auto simp: word_sless_alt)

lemma c_withDepth_ok:
  "Err fired ctx = None
   \<Longrightarrow> c_withDepth fired c ctx v = (Return (Some (WithValue ctx (LockKey (id_f c)) (IntVal v))) None, c)"
  by (simp add: c_withDepth_def)

lemma c_withDepth_done:
  "Err fired ctx = Some e \<Longrightarrow> cond c = Some ws
   \<Longrightarrow> c_withDepth fired c ctx v = (Return None (Some e), c\<lparr>cond := Some (Broadcast ws)\<rparr>)"
  by (simp add: c_withDepth_def)

lemma Unlock_early:
  "id_f c = 0 \<or> (c_depth c ctx = 0 \<and> \<not> held c)
   \<Longrightarrow> Unlock fired c ctx = (Return (Some ctx) None, c)"
  by (auto simp: Unlock_def)

lemma Unlock_release:
  assumes "id_f c \<noteq> 0" and "cond c = Some ws"
    and "c_depth c ctx = 1 \<or> (c_depth c ctx = 0 \<and> held c)"
  shows "Unlock fired c ctx = c_withDepth fired (c\<lparr>held := False, cond := Some (Signal ws)\<rparr>) ctx 0"
  using assms sless_0_cases(1,2)
  by (auto simp: Unlock_def Unlock_case1_def Unlock_default_def)

lemma Unlock_other:
  assumes "id_f c \<noteq> 0" and "c_depth c ctx \<noteq> 0" and "c_depth c ctx \<noteq> 1"
  shows "Unlock fired c ctx =
           c_withDepth fired c ctx (if 0 <s c_depth c ctx then c_depth c ctx - 1 else c_depth c ctx)"
  using assms by (simp add: Unlock_def Unlock_default_def)

lemma Lock_loop_free:
  "\<not> held c \<Longrightarrow> Lock_loop fired me c ctx d = c_withDepth fired (c\<lparr>held := True\<rparr>) ctx (d + 1)"
  by (simp add: Lock_loop_def)

lemma Lock_first:
  "Lock_init rnd c = Some c1 \<Longrightarrow> c_depth c1 ctx = 0
   \<Longrightarrow> Lock rnd fired me c ctx = Some (Lock_loop fired me c1 ctx 0)"
  by (simp add: Lock_def)

lemma Lock_nested:
  "Lock_init rnd c = Some c1 \<Longrightarrow> c_depth c1 ctx \<noteq> 0
   \<Longrightarrow> Lock rnd fired me c ctx = Some (c_withDepth fired c1 ctx (c_depth c1 ctx + 1))"
  by (simp add: Lock_def)

lemma Lock_wake_stored:
  "c_wait_result fired stored ctx = Some e
   \<Longrightarrow> Lock_wake fired stored me c ctx = (Return (Some ctx) (Some e), c)"
  by (simp add: Lock_wake_def)

lemma Lock_wake_loop:
  "c_wait_result fired stored ctx = None
   \<Longrightarrow> Lock_wake fired stored me c ctx = Lock_loop fired me c ctx 0"
  by (simp add: Lock_wake_def)

lemma c_withDepth_state:
  assumes "c_withDepth fired c ctx v = (r, c')"
  shows "id_f c' = id_f c \<and> held c' = held c \<and> (cond c' = None \<longleftrightarrow> cond c = None)"
  using assms by (auto simp: c_withDepth_def split: option.splits)

lemma Lock_loop_state:
  assumes "Lock_loop fired me c ctx d = (r, c')"
  shows "id_f c' = id_f c \<and> held c' \<and> (cond c' = None \<longleftrightarrow> cond c = None)"
proof (cases "held c")
  case True
  with assms show ?thesis
    by (auto simp: Lock_loop_def split: option.splits)
next
  case False
  with assms c_withDepth_state[of fired "c\<lparr>held := True\<rparr>" ctx "d + 1" r c'] show ?thesis
    by (simp add: Lock_loop_free)
qed

lemma Lock_state:
  assumes "Lock rnd fired me c ctx = Some (r, c')"
  shows "\<exists>c1. Lock_init rnd c = Some c1 \<and> id_f c' = id_f c1
            \<and> (cond c' = None \<longleftrightarrow> cond c1 = None)
            \<and> (if c_depth c1 ctx = 0 then held c' else held c' = held c1)"
proof (cases "Lock_init rnd c")
  case None
  with assms show ?thesis by (simp add: Lock_def)
next
  case (Some c1)
  show ?thesis
  proof (cases "c_depth c1 ctx = 0")
    case True
    with Some assms have "Lock_loop fired me c1 ctx 0 = (r, c')"
      by (simp add: Lock_first)
    from Lock_loop_state[OF this] Some True show ?thesis by simp
  next
    case False
    with Some assms have "c_withDepth fired c1 ctx (c_depth c1 ctx + 1) = (r, c')"
      by (simp add: Lock_nested)
    from c_withDepth_state[OF this] Some False show ?thesis by simp
  qed
qed

lemma Lock_wake_state:
  assumes "Lock_wake fired stored me c ctx = (r, c')"
  shows "id_f c' = id_f c \<and> (cond c' = None \<longleftrightarrow> cond c = None) \<and> (held c \<longrightarrow> held c')"
proof (cases "c_wait_result fired stored ctx")
  case None
  with assms have "Lock_loop fired me c ctx 0 = (r, c')"
    by (simp add: Lock_wake_loop)
  from Lock_loop_state[OF this] show ?thesis by simp
next
  case (Some e)
  with assms show ?thesis by (simp add: Lock_wake_stored)
qed

lemma Unlock_default_state:
  assumes "Unlock_default fired c ctx d = (r, c')"
  shows "id_f c' = id_f c \<and> held c' = held c \<and> (cond c' = None \<longleftrightarrow> cond c = None)"
  using assms c_withDepth_state[of fired c ctx _ r c'] by (simp add: Unlock_default_def)

lemma Unlock_case1_state:
  assumes "Unlock_case1 fired c ctx d = (r, c')"
  shows "id_f c' = id_f c \<and> \<not> held c' \<and> (cond c' = None \<longleftrightarrow> cond c = None)"
proof (cases "cond c")
  case None
  with assms show ?thesis by (auto simp: Unlock_case1_def)
next
  case (Some ws)
  with assms Unlock_default_state[of fired "c\<lparr>held := False, cond := Some (Signal ws)\<rparr>" ctx d r c']
  show ?thesis by (simp add: Unlock_case1_def)
qed

lemma Unlock_state:
  assumes "Unlock fired c ctx = (r, c')"
  shows "id_f c' = id_f c \<and> (cond c' = None \<longleftrightarrow> cond c = None) \<and> (held c' \<longrightarrow> held c)"
  using assms Unlock_default_state[of fired c ctx "c_depth c ctx" r c']
    Unlock_case1_state[of fired c ctx "c_depth c ctx" r c']
  by (auto simp: Unlock_def Let_def split: if_splits)

lemma Clear_state:
  assumes "Clear fired c ctx = (r, c')"
  shows "id_f c' = id_f c \<and> (cond c' = None \<longleftrightarrow> cond c = None) \<and> held c' = held c"
  using assms c_withDepth_state[of fired c ctx 0 r c']
  by (cases "held c") (auto simp: Clear_def)

lemma Lock_init_total: "rnd n \<noteq> 0 \<or> id_f c \<noteq> 0 \<Longrightarrow> \<exists>c1. Lock_init rnd c = Some c1"
proof (cases "id_f c = 0")
  case True
  assume "rnd n \<noteq> 0 \<or> id_f c \<noteq> 0"
  with True have "rnd (0 + n) \<noteq> 0" by simp
  from c_setup_loop_ends[of rnd 0 n, OF this] True show ?thesis
    by (auto simp: Lock_init_def c_setup_def)
next
  case False
  then show ?thesis by (simp add: Lock_init_def)
qed

lemma Lock_total: "Lock_init rnd c = Some c1 \<Longrightarrow> \<exists>r c'. Lock rnd fired me c ctx = Some (r, c')"
  by (cases "c_depth c1 ctx = 0") (auto simp: Lock_def)

lemma c_withDepth_done_error:
  assumes "Err fired ctx = Some e" and "c_withDepth fired c ctx v = (Return x er, c')"
  shows "er = Some e"
  using assms by (auto simp: c_withDepth_def split: option.splits)

lemma Lock_loop_done_error:
  assumes "Err fired ctx = Some e" and "Lock_loop fired me c ctx d = (Return x er, c')"
  shows "er = Some e"
proof (cases "held c")
  case True
  with assms(2) show ?thesis by (auto simp: Lock_loop_def split: option.splits)
next
  case False
  with assms c_withDepth_done_error[of fired ctx e "c\<lparr>held := True\<rparr>" "d + 1" x er c'] show ?thesis
    by (simp add: Lock_loop_free)
qed

section \<open>The claims about single calls\<close>

text \<open>
  Claim C2. A \<^verbatim>\<open>Lock\<close> with a context whose depth for the lock is \<open>N \<ge> 1\<close> and whose
  cancellation has not fired returns in its first step, without parking in \<^verbatim>\<open>cond.Wait()\<close>:
  it returns the context extended with depth \<open>N + 1\<close> (Go's \<^verbatim>\<open>int\<close> addition, which is the
  integer successor below the largest \<^verbatim>\<open>int\<close>) and a nil error, and it leaves \<open>held\<close> and the
  waiters as they are. The depth is read under the identifier the call works with: the
  lock's own, or the one its lazy setup has just drawn when the lock was still the zero value.
\<close>

theorem Lock_reentrant:
  assumes "Lock_init rnd c = Some c1" and "c_depth c1 ctx = N" and "1 \<le>s N"
    and "Err fired ctx = None"
  shows "Lock rnd fired me c ctx =
           Some (Return (Some (WithValue ctx (LockKey (id_f c1)) (IntVal (N + 1)))) None, c1)
       \<and> c_depth c1 (WithValue ctx (LockKey (id_f c1)) (IntVal (N + 1))) = N + 1
       \<and> held c1 = held c
       \<and> (cond c \<noteq> None \<longrightarrow> cond c1 = cond c)
       \<and> (id_f c \<noteq> 0 \<longrightarrow> c1 = c)
       \<and> (sint N < 2 ^ 63 - 1 \<longrightarrow> sint (N + 1) = sint N + 1)"
proof -
  have "N \<noteq> 0"
    using assms(3) by (rule sle_1_nonzero)
  with assms(1,2,4)
  have "Lock rnd fired me c ctx =
           Some (Return (Some (WithValue ctx (LockKey (id_f c1)) (IntVal (N + 1)))) None, c1)"
    by (simp add: Lock_def c_withDepth_def)
  moreover have "id_f c \<noteq> 0 \<longrightarrow> c1 = c"
    using assms(1) by (cases "id_f c = 0") (simp_all add: Lock_init_def)
  ultimately show ?thesis
    using Lock_init_Some[OF assms(1)] sint_succ[of N] by simp
qed

theorem Lock_reentrant_witness:
  "Lock_init draws7 held_lock = Some held_lock \<and> c_depth held_lock ctx1 = 1 \<and> (1 :: go_int) \<le>s 1
   \<and> Err none_fired ctx1 = None
   \<and> Lock draws7 none_fired 9 held_lock ctx1 = Some (Return (Some ctx2) None, held_lock)"
proof -
  have h: "Lock_init draws7 held_lock = Some held_lock" "c_depth held_lock ctx1 = 1"
      "(1 :: go_int) \<le>s 1" "Err none_fired ctx1 = None"
    by (simp_all add: Lock_init_def held_lock_def c_depth_def ctx1_def ctx0_def none_fired_def)
  have i: "id_f held_lock = 7"
    by (simp add: held_lock_def)
  from Lock_reentrant[OF h, of 9] h i show ?thesis
    by (simp add: ctx2_def)
qed

text \<open>
  Claim C7. \<^verbatim>\<open>Unlock\<close> on a lock that was never initialised (identifier still zero), or with
  a context at depth 0 while the lock is not held, is a no-op: it returns the context it was
  given and a nil error, and the lock (held, identifier, waiters) is unchanged.
\<close>

theorem Unlock_noop:
  "id_f c = 0 \<or> (c_depth c ctx = 0 \<and> \<not> held c)
   \<Longrightarrow> Unlock fired c ctx = (Return (Some ctx) None, c)"
  by (auto simp: Unlock_def)

theorem Unlock_noop_witness:
  "id_f zero_value = 0
   \<and> Unlock all_fired zero_value ctx1 = (Return (Some ctx1) None, zero_value)
   \<and> c_depth free_lock ctx0 = 0 \<and> \<not> held free_lock
   \<and> Unlock all_fired free_lock ctx0 = (Return (Some ctx0) None, free_lock)"
proof -
  have z: "id_f zero_value = 0"
    by (simp add: zero_value_def)
  have f: "c_depth free_lock ctx0 = 0 \<and> \<not> held free_lock"
    by (simp add: free_lock_def c_depth_def ctx0_def)
  from z f Unlock_noop[of zero_value ctx1 all_fired] Unlock_noop[of free_lock ctx0 all_fired]
  show ?thesis
    by simp
qed

text \<open>
  Claim C3 says that \<^verbatim>\<open>Unlock\<close> with a depth above 1 only decrements the depth and wakes no
  waiter, and that a full release wakes exactly one. With a cancelled context \<^verbatim>\<open>_withDepth\<close>
  broadcasts: at depth 2 both waiters 5 and 6 are woken, and no context with depth 1 comes
  back.
\<close>

theorem Unlock_cancelled_counterexample:
  "c_depth held_lock ctx2 = 2 \<and> cond held_lock = Some [5, 6]
   \<and> Unlock all_fired held_lock ctx2
       = (Return None (Some Canceled), \<lparr>cond = Some [], held = True, id_f = 7\<rparr>)"
  by (simp add: Unlock_def Unlock_default_def c_withDepth_def c_depth_def Broadcast_def
      held_lock_def ctx2_def ctx1_def ctx0_def all_fired_def word_sless_alt)

text \<open>
  Claim C3, amended. On an initialised lock and with a context whose cancellation has not
  fired, \<^verbatim>\<open>Unlock\<close> sets \<open>held\<close> to false and signals once (waking the oldest waiter and no
  other) exactly when the depth is 1, or 0 while the lock is held, and returns depth 0; with
  a depth above 1 it returns the depth less 1 and leaves the lock, its waiters included, as it
  is. Outside the two releasing cases \<open>held\<close> is never changed. When the cancellation has
  fired \<^verbatim>\<open>Unlock\<close> makes the same change to \<open>held\<close>, then broadcasts, which wakes every
  waiter, and returns the cancellation error.
\<close>

theorem Unlock_transitions:
  assumes "id_f c \<noteq> 0" and "cond c = Some ws"
  shows "(Err fired ctx = None \<longrightarrow>
           ((c_depth c ctx = 1 \<or> (c_depth c ctx = 0 \<and> held c)) \<longrightarrow>
              Unlock fired c ctx =
                (Return (Some (WithValue ctx (LockKey (id_f c)) (IntVal 0))) None,
                 c\<lparr>held := False, cond := Some (Signal ws)\<rparr>))
         \<and> (1 <s c_depth c ctx \<longrightarrow>
              Unlock fired c ctx =
                (Return (Some (WithValue ctx (LockKey (id_f c)) (IntVal (c_depth c ctx - 1)))) None, c)))
       \<and> (\<not> (c_depth c ctx = 1 \<or> (c_depth c ctx = 0 \<and> held c)) \<longrightarrow>
             held (snd (Unlock fired c ctx)) = held c)
       \<and> (\<forall>e. Err fired ctx = Some e \<longrightarrow>
            ((c_depth c ctx = 1 \<or> (c_depth c ctx = 0 \<and> held c)) \<longrightarrow>
               (\<exists>x. Unlock fired c ctx =
                  (Return x (Some e), c\<lparr>held := False, cond := Some (Broadcast (Signal ws))\<rparr>)))
          \<and> (c_depth c ctx \<noteq> 1 \<and> c_depth c ctx \<noteq> 0 \<longrightarrow>
               (\<exists>x. Unlock fired c ctx = (Return x (Some e), c\<lparr>cond := Some (Broadcast ws)\<rparr>))))"
proof (intro conjI impI allI)
  assume "Err fired ctx = None" and "c_depth c ctx = 1 \<or> (c_depth c ctx = 0 \<and> held c)"
  then show "Unlock fired c ctx =
                (Return (Some (WithValue ctx (LockKey (id_f c)) (IntVal 0))) None,
                 c\<lparr>held := False, cond := Some (Signal ws)\<rparr>)"
    using assms by (simp add: Unlock_release c_withDepth_ok)
next
  assume "Err fired ctx = None" and "1 <s c_depth c ctx"
  then show "Unlock fired c ctx =
     (Return (Some (WithValue ctx (LockKey (id_f c)) (IntVal (c_depth c ctx - 1)))) None, c)"
    using assms sless_0_cases(3)[of "c_depth c ctx"] by (simp add: Unlock_other c_withDepth_ok)
next
  assume n: "\<not> (c_depth c ctx = 1 \<or> (c_depth c ctx = 0 \<and> held c))"
  show "held (snd (Unlock fired c ctx)) = held c"
  proof (cases "c_depth c ctx = 0")
    case True
    with n show ?thesis by (simp add: Unlock_early)
  next
    case False
    with n assms show ?thesis
      by (cases "Err fired ctx") (simp_all add: Unlock_other c_withDepth_ok c_withDepth_done)
  qed
next
  fix e
  assume "Err fired ctx = Some e" and "c_depth c ctx = 1 \<or> (c_depth c ctx = 0 \<and> held c)"
  then show "\<exists>x. Unlock fired c ctx =
                  (Return x (Some e), c\<lparr>held := False, cond := Some (Broadcast (Signal ws))\<rparr>)"
    using assms by (simp add: Unlock_release c_withDepth_done)
next
  fix e
  assume "Err fired ctx = Some e" and "c_depth c ctx \<noteq> 1 \<and> c_depth c ctx \<noteq> 0"
  then show "\<exists>x. Unlock fired c ctx = (Return x (Some e), c\<lparr>cond := Some (Broadcast ws)\<rparr>)"
    using assms by (simp add: Unlock_other c_withDepth_done)
qed

theorem Unlock_transitions_witness:
  "id_f held_lock \<noteq> 0 \<and> cond held_lock = Some [5, 6]
   \<and> Err none_fired ctx1 = None \<and> c_depth held_lock ctx1 = 1
   \<and> Unlock none_fired held_lock ctx1 =
       (Return (Some (WithValue ctx1 (LockKey 7) (IntVal 0))) None,
        \<lparr>cond = Some [6], held = False, id_f = 7\<rparr>)
   \<and> Err none_fired ctx2 = None \<and> 1 <s c_depth held_lock ctx2
   \<and> Unlock none_fired held_lock ctx2 =
       (Return (Some (WithValue ctx2 (LockKey 7) (IntVal 1))) None, held_lock)
   \<and> Err all_fired ctx1 = Some Canceled
   \<and> snd (Unlock all_fired held_lock ctx1) = \<lparr>cond = Some [], held = False, id_f = 7\<rparr>"
proof -
  have h: "id_f held_lock \<noteq> 0" "cond held_lock = Some [5, 6]"
    by (simp_all add: held_lock_def)
  have e: "Err none_fired ctx1 = None" "Err none_fired ctx2 = None"
      "Err all_fired ctx1 = Some Canceled"
    by (simp_all add: ctx2_def ctx1_def ctx0_def none_fired_def all_fired_def)
  have d: "c_depth held_lock ctx1 = 1" "c_depth held_lock ctx2 = 2" "1 <s (2 :: go_int)"
    by (simp_all add: c_depth_def held_lock_def ctx2_def ctx1_def word_sless_alt)
  have v: "held_lock\<lparr>held := False, cond := Some [6]\<rparr> = \<lparr>cond = Some [6], held = False, id_f = 7\<rparr>"
      "held_lock\<lparr>held := False, cond := Some []\<rparr> = \<lparr>cond = Some [], held = False, id_f = 7\<rparr>"
      "id_f held_lock = 7"
    by (simp_all add: held_lock_def)
  from Unlock_transitions[OF h, of none_fired ctx1] Unlock_transitions[OF h, of none_fired ctx2]
    Unlock_transitions[OF h, of all_fired ctx1] h e d v
  show ?thesis
    by (auto simp: Broadcast_def)
qed

text \<open>
  Claim C6 says that \<^verbatim>\<open>Clear\<close> on a held lock returns a new context with depth 0 and leaves
  the rest of the lock unchanged. With a cancelled context it returns the cancellation error
  and no such context, and its broadcast empties the list of waiters.
\<close>

theorem Clear_cancelled_counterexample:
  "held held_lock \<and> Clear all_fired held_lock ctx1
     = (Return None (Some Canceled), \<lparr>cond = Some [], held = True, id_f = 7\<rparr>)"
  by (simp add: Clear_def c_withDepth_def Broadcast_def held_lock_def ctx1_def ctx0_def all_fired_def)

text \<open>
  Claim C6, amended. \<^verbatim>\<open>Clear\<close> on a held lock, with a context whose cancellation has not
  fired, returns a new context that differs from the input only in this lock's depth, which
  is 0 (every other key, and the cancellation, read as in the input), with a nil error and
  the lock unchanged. When the cancellation has fired it returns the cancellation error,
  \<open>held\<close> stays true and every waiter is woken by a broadcast. On a lock that is not held
  \<^verbatim>\<open>Clear\<close> returns the input context itself, a nil error and the lock unchanged.
\<close>

theorem Clear_result:
  "(held c \<and> Err fired ctx = None \<longrightarrow>
      Clear fired c ctx = (Return (Some (WithValue ctx (LockKey (id_f c)) (IntVal 0))) None, c)
      \<and> c_depth c (WithValue ctx (LockKey (id_f c)) (IntVal 0)) = 0
      \<and> (\<forall>k. k \<noteq> LockKey (id_f c) \<longrightarrow>
             Value (WithValue ctx (LockKey (id_f c)) (IntVal 0)) k = Value ctx k)
      \<and> (\<forall>f. Err f (WithValue ctx (LockKey (id_f c)) (IntVal 0)) = Err f ctx))
   \<and> (\<not> held c \<longrightarrow> Clear fired c ctx = (Return (Some ctx) None, c))
   \<and> (\<forall>e ws. held c \<and> Err fired ctx = Some e \<and> cond c = Some ws \<longrightarrow>
         (\<exists>x. Clear fired c ctx = (Return x (Some e), c\<lparr>cond := Some (Broadcast ws)\<rparr>))
         \<and> held (snd (Clear fired c ctx)))"
  by (simp add: Clear_def c_withDepth_ok c_withDepth_done)

theorem Clear_result_witness:
  "held held_lock \<and> Err none_fired ctx2 = None
   \<and> Clear none_fired held_lock ctx2 = (Return (Some (WithValue ctx2 (LockKey 7) (IntVal 0))) None, held_lock)
   \<and> \<not> held free_lock \<and> Clear all_fired free_lock ctx2 = (Return (Some ctx2) None, free_lock)
   \<and> Err all_fired ctx2 = Some Canceled \<and> cond held_lock = Some [5, 6]
   \<and> snd (Clear all_fired held_lock ctx2) = \<lparr>cond = Some [], held = True, id_f = 7\<rparr>"
proof -
  have h: "held held_lock" "\<not> held free_lock" "cond held_lock = Some [5, 6]" "id_f held_lock = 7"
      "held_lock\<lparr>cond := Some []\<rparr> = \<lparr>cond = Some [], held = True, id_f = 7\<rparr>"
    by (simp_all add: held_lock_def free_lock_def)
  have e: "Err none_fired ctx2 = None" "Err all_fired ctx2 = Some Canceled"
    by (simp_all add: ctx2_def ctx1_def ctx0_def none_fired_def all_fired_def)
  from Clear_result[of held_lock none_fired ctx2] Clear_result[of free_lock all_fired ctx2]
    Clear_result[of held_lock all_fired ctx2] h e
  show ?thesis
    by (auto simp: Broadcast_def)
qed

text \<open>
  Claim C5 says that \<^verbatim>\<open>Lock\<close> and \<^verbatim>\<open>Unlock\<close> return the cancellation error whenever the
  context is already cancelled. The two early returns of \<^verbatim>\<open>Unlock\<close> come before any look at
  the context: on an unheld lock, at depth 0, \<^verbatim>\<open>Unlock\<close> with a cancelled context returns a
  nil error.
\<close>

theorem Unlock_cancelled_noop_counterexample:
  "Err all_fired ctx0 = Some Canceled
   \<and> Unlock all_fired free_lock ctx0 = (Return (Some ctx0) None, free_lock)"
  by (simp add: Unlock_def c_depth_def free_lock_def ctx0_def all_fired_def)

text \<open>
  Claim C5, amended. With a context whose cancellation has already fired, every return of
  \<^verbatim>\<open>Lock\<close>, from its first step or after a wait, carries the cancellation error: \<^verbatim>\<open>Lock\<close>
  returns it at once unless the depth is 0 and the lock is held, in which case it parks and
  returns it on waking once the watcher has stored it, or once the lock is free. \<^verbatim>\<open>Unlock\<close>
  returns the cancellation error except on its two no-op paths (identifier still zero, or
  depth 0 while not held), where it returns the input context and a nil error. The
  cancellation is looked at after the state transition, not before: a releasing \<^verbatim>\<open>Unlock\<close>
  has cleared \<open>held\<close> when it returns the error.
\<close>

theorem cancelled_calls:
  assumes "Err fired ctx = Some e"
  shows "(\<forall>x er c'. Lock rnd fired me c ctx = Some (Return x er, c') \<longrightarrow> er = Some e)
       \<and> (\<forall>stored x er c'. Lock_wake fired stored me c ctx = (Return x er, c') \<longrightarrow> er = Some e)
       \<and> (\<forall>c1. Lock_init rnd c = Some c1 \<and> cond c1 \<noteq> None \<and> \<not> (c_depth c1 ctx = 0 \<and> held c1)
             \<longrightarrow> (\<exists>x c'. Lock rnd fired me c ctx = Some (Return x (Some e), c')))
       \<and> Lock_wake fired True me c ctx = (Return (Some ctx) (Some e), c)
       \<and> (cond c \<noteq> None \<and> \<not> held c \<longrightarrow> (\<exists>x c'. Lock_wake fired False me c ctx = (Return x (Some e), c')))
       \<and> (id_f c = 0 \<or> (c_depth c ctx = 0 \<and> \<not> held c)
             \<longrightarrow> Unlock fired c ctx = (Return (Some ctx) None, c))
       \<and> (id_f c \<noteq> 0 \<and> cond c \<noteq> None \<and> \<not> (c_depth c ctx = 0 \<and> \<not> held c)
             \<longrightarrow> (\<exists>x c'. Unlock fired c ctx = (Return x (Some e), c')))
       \<and> (id_f c \<noteq> 0 \<and> cond c \<noteq> None \<and> (c_depth c ctx = 1 \<or> (c_depth c ctx = 0 \<and> held c))
             \<longrightarrow> \<not> held (snd (Unlock fired c ctx)))"
proof (intro conjI allI impI)
  fix x er c'
  assume l: "Lock rnd fired me c ctx = Some (Return x er, c')"
  then obtain c1 where c1: "Lock_init rnd c = Some c1"
    by (cases "Lock_init rnd c") (simp_all add: Lock_def)
  show "er = Some e"
  proof (cases "c_depth c1 ctx = 0")
    case True
    with l c1 have "Lock_loop fired me c1 ctx 0 = (Return x er, c')"
      by (simp add: Lock_first)
    with assms show ?thesis by (rule Lock_loop_done_error)
  next
    case False
    with l c1 have "c_withDepth fired c1 ctx (c_depth c1 ctx + 1) = (Return x er, c')"
      by (simp add: Lock_nested)
    with assms show ?thesis by (rule c_withDepth_done_error)
  qed
next
  fix stored x er c'
  assume w: "Lock_wake fired stored me c ctx = (Return x er, c')"
  show "er = Some e"
  proof (cases stored)
    case True
    with w assms show ?thesis
      by (simp add: Lock_wake_def c_wait_result_def)
  next
    case False
    with w have "Lock_loop fired me c ctx 0 = (Return x er, c')"
      by (simp add: Lock_wake_def c_wait_result_def)
    with assms show ?thesis by (rule Lock_loop_done_error)
  qed
next
  fix c1
  assume a: "Lock_init rnd c = Some c1 \<and> cond c1 \<noteq> None \<and> \<not> (c_depth c1 ctx = 0 \<and> held c1)"
  then obtain ws where ws: "cond c1 = Some ws" by auto
  show "\<exists>x c'. Lock rnd fired me c ctx = Some (Return x (Some e), c')"
  proof (cases "c_depth c1 ctx = 0")
    case True
    with a ws assms show ?thesis
      by (simp add: Lock_first Lock_loop_free c_withDepth_done)
  next
    case False
    with a ws assms show ?thesis
      by (simp add: Lock_nested c_withDepth_done)
  qed
next
  show "Lock_wake fired True me c ctx = (Return (Some ctx) (Some e), c)"
    using assms by (simp add: Lock_wake_def c_wait_result_def)
next
  assume a: "cond c \<noteq> None \<and> \<not> held c"
  then obtain ws where "cond c = Some ws" by auto
  with a assms show "\<exists>x c'. Lock_wake fired False me c ctx = (Return x (Some e), c')"
    by (simp add: Lock_wake_def c_wait_result_def Lock_loop_free c_withDepth_done)
next
  assume "id_f c = 0 \<or> (c_depth c ctx = 0 \<and> \<not> held c)"
  then show "Unlock fired c ctx = (Return (Some ctx) None, c)"
    by (rule Unlock_early)
next
  assume a: "id_f c \<noteq> 0 \<and> cond c \<noteq> None \<and> \<not> (c_depth c ctx = 0 \<and> \<not> held c)"
  then obtain ws where ws: "cond c = Some ws" by auto
  show "\<exists>x c'. Unlock fired c ctx = (Return x (Some e), c')"
  proof (cases "c_depth c ctx = 1 \<or> (c_depth c ctx = 0 \<and> held c)")
    case True
    with a ws assms show ?thesis
      by (simp add: Unlock_release[where ws = ws] c_withDepth_done)
  next
    case False
    with a ws assms show ?thesis
      by (simp add: Unlock_other c_withDepth_done)
  qed
next
  assume a: "id_f c \<noteq> 0 \<and> cond c \<noteq> None \<and> (c_depth c ctx = 1 \<or> (c_depth c ctx = 0 \<and> held c))"
  then obtain ws where ws: "cond c = Some ws" by auto
  with a assms show "\<not> held (snd (Unlock fired c ctx))"
    by (simp add: Unlock_release[where ws = ws] c_withDepth_done)
qed

theorem cancelled_calls_witness:
  "Err all_fired ctx1 = Some Canceled
   \<and> Lock draws7 all_fired 9 held_lock ctx1
       = Some (Return None (Some Canceled), \<lparr>cond = Some [], held = True, id_f = 7\<rparr>)
   \<and> Lock_wake all_fired True 9 held_lock ctx1 = (Return (Some ctx1) (Some Canceled), held_lock)
   \<and> id_f zero_value = 0
   \<and> Unlock all_fired zero_value ctx1 = (Return (Some ctx1) None, zero_value)
   \<and> Unlock all_fired held_lock ctx1
       = (Return None (Some Canceled), \<lparr>cond = Some [], held = False, id_f = 7\<rparr>)"
proof -
  have e: "Err all_fired ctx1 = Some Canceled"
    by (simp add: ctx1_def ctx0_def all_fired_def)
  have l: "Lock draws7 all_fired 9 held_lock ctx1
       = Some (Return None (Some Canceled), \<lparr>cond = Some [], held = True, id_f = 7\<rparr>)"
    using e by (simp add: Lock_def Lock_init_def c_withDepth_def c_depth_def Broadcast_def
        held_lock_def ctx1_def)
  have u: "Unlock all_fired held_lock ctx1
       = (Return None (Some Canceled), \<lparr>cond = Some [], held = False, id_f = 7\<rparr>)"
    using e by (simp add: Unlock_def Unlock_case1_def Unlock_default_def c_withDepth_def
        c_depth_def Broadcast_def held_lock_def ctx1_def)
  have z: "id_f zero_value = 0"
    by (simp add: zero_value_def)
  from cancelled_calls[OF e, of draws7 9 held_lock] cancelled_calls[OF e, of draws7 9 zero_value]
    e l u z
  show ?thesis
    by simp
qed

text \<open>
  Claim C1 says that a \<^verbatim>\<open>Lock\<close> or \<^verbatim>\<open>Unlock\<close> that returns a non-nil error leaves \<open>held\<close> as
  it was. \<^verbatim>\<open>Unlock\<close> does its transition first and looks at the cancellation afterwards, in
  \<^verbatim>\<open>_withDepth\<close>: with a cancelled context at depth 1 it returns the error and has released
  the lock all the same.
\<close>

theorem Unlock_error_counterexample:
  "held held_lock
   \<and> Unlock all_fired held_lock ctx1
       = (Return None (Some Canceled), \<lparr>cond = Some [], held = False, id_f = 7\<rparr>)"
  by (simp add: Unlock_def Unlock_case1_def Unlock_default_def c_withDepth_def
        c_depth_def Broadcast_def held_lock_def ctx1_def ctx0_def all_fired_def)

text \<open>
  Claim C1, amended. A \<^verbatim>\<open>Lock\<close> whose wait ends with the watcher's error returns the
  caller's own context with that error and leaves the lock as it found it on waking: the
  waiter does not set \<open>held\<close>. A re-entrant \<^verbatim>\<open>Lock\<close> (depth other than 0) that returns an error
  leaves \<open>held\<close> unchanged. An \<^verbatim>\<open>Unlock\<close> that returns an error has applied its transition:
  \<open>held\<close> is false afterwards when the depth was 0 or 1, and unchanged otherwise.
\<close>

theorem error_paths_held:
  "(\<forall>e. c_wait_result fired stored ctx = Some e \<longrightarrow>
        Lock_wake fired stored me c ctx = (Return (Some ctx) (Some e), c))
   \<and> (\<forall>c1 x e c'. Lock_init rnd c = Some c1 \<and> c_depth c1 ctx \<noteq> 0
          \<and> Lock rnd fired me c ctx = Some (Return x (Some e), c') \<longrightarrow> held c' = held c)
   \<and> (\<forall>x e c'. Unlock fired c ctx = (Return x (Some e), c') \<longrightarrow>
          held c' = (if c_depth c ctx = 0 \<or> c_depth c ctx = 1 then False else held c))"
proof (intro conjI allI impI)
  fix e
  assume "c_wait_result fired stored ctx = Some e"
  then show "Lock_wake fired stored me c ctx = (Return (Some ctx) (Some e), c)"
    by (rule Lock_wake_stored)
next
  fix c1 x e c'
  assume a: "Lock_init rnd c = Some c1 \<and> c_depth c1 ctx \<noteq> 0
          \<and> Lock rnd fired me c ctx = Some (Return x (Some e), c')"
  then have "Lock_init rnd c = Some c1" and "c_depth c1 ctx \<noteq> 0"
      and "Lock rnd fired me c ctx = Some (Return x (Some e), c')"
    by simp_all
  from Lock_nested[OF this(1,2), of fired me] this(3)
  have "c_withDepth fired c1 ctx (c_depth c1 ctx + 1) = (Return x (Some e), c')"
    by simp
  from c_withDepth_state[OF this] Lock_init_Some[of rnd c c1] a show "held c' = held c"
    by simp
next
  fix x e c'
  assume u: "Unlock fired c ctx = (Return x (Some e), c')"
  show "held c' = (if c_depth c ctx = 0 \<or> c_depth c ctx = 1 then False else held c)"
  proof (cases "id_f c = 0 \<or> (c_depth c ctx = 0 \<and> \<not> held c)")
    case True
    from Unlock_early[OF this, of fired] u show ?thesis by simp
  next
    case False
    show ?thesis
    proof (cases "c_depth c ctx = 0 \<or> c_depth c ctx = 1")
      case True
      with False u have "Unlock_case1 fired c ctx (c_depth c ctx) = (Return x (Some e), c')"
        by (auto simp: Unlock_def Let_def)
      from Unlock_case1_state[OF this] True show ?thesis by simp
    next
      case f: False
      with False u have "Unlock_default fired c ctx (c_depth c ctx) = (Return x (Some e), c')"
        by (simp add: Unlock_def Let_def)
      from Unlock_default_state[OF this] f show ?thesis by simp
    qed
  qed
qed

theorem error_paths_held_witness:
  "c_wait_result all_fired True ctx0 = Some Canceled
   \<and> Lock_wake all_fired True 9 held_lock ctx0 = (Return (Some ctx0) (Some Canceled), held_lock)
   \<and> Lock_init draws7 held_lock = Some held_lock \<and> c_depth held_lock ctx1 \<noteq> 0
   \<and> Lock draws7 all_fired 9 held_lock ctx1
       = Some (Return None (Some Canceled), \<lparr>cond = Some [], held = True, id_f = 7\<rparr>)
   \<and> held held_lock
   \<and> c_depth held_lock ctx2 = 2
   \<and> Unlock all_fired held_lock ctx2
       = (Return None (Some Canceled), \<lparr>cond = Some [], held = True, id_f = 7\<rparr>)"
proof -
  have w: "c_wait_result all_fired True ctx0 = Some Canceled"
    by (simp add: c_wait_result_def ctx0_def all_fired_def)
  have i: "Lock_init draws7 held_lock = Some held_lock" "c_depth held_lock ctx1 \<noteq> 0"
      "held held_lock" "c_depth held_lock ctx2 = 2"
    by (simp_all add: Lock_init_def c_depth_def held_lock_def ctx1_def ctx2_def)
  have l: "Lock draws7 all_fired 9 held_lock ctx1
       = Some (Return None (Some Canceled), \<lparr>cond = Some [], held = True, id_f = 7\<rparr>)"
    by (simp add: Lock_def Lock_init_def c_withDepth_def c_depth_def Broadcast_def
        held_lock_def ctx1_def ctx0_def all_fired_def)
  have u: "Unlock all_fired held_lock ctx2
       = (Return None (Some Canceled), \<lparr>cond = Some [], held = True, id_f = 7\<rparr>)"
    by (simp add: Unlock_def Unlock_default_def c_withDepth_def c_depth_def Broadcast_def
      held_lock_def ctx2_def ctx1_def ctx0_def all_fired_def word_sless_alt)
  from error_paths_held[of all_fired True ctx0 9 held_lock draws7]
    error_paths_held[of all_fired True ctx1 9 held_lock draws7]
    error_paths_held[of all_fired True ctx2 9 held_lock draws7] w i l u
  show ?thesis
    by simp
qed

text \<open>
  Claim C4 says that the returned context is never nil, as the doc comments of \<^verbatim>\<open>Lock\<close>,
  \<^verbatim>\<open>Unlock\<close> and \<^verbatim>\<open>Clear\<close> do. \<^verbatim>\<open>_withDepth\<close> returns \<^verbatim>\<open>nil, ctx.Err()\<close> when the context is
  done: \<^verbatim>\<open>Lock\<close> on the zero value with a cancelled context returns a nil context, and so
  do \<^verbatim>\<open>Unlock\<close> and \<^verbatim>\<open>Clear\<close> on a held lock.
\<close>

theorem cancelled_nil_context:
  "Err all_fired ctx0 = Some Canceled
   \<and> Lock draws7 all_fired 0 zero_value ctx0
       = Some (Return None (Some Canceled), \<lparr>cond = Some [], held = True, id_f = 7\<rparr>)
   \<and> fst (Unlock all_fired held_lock ctx2) = Return None (Some Canceled)
   \<and> fst (Clear all_fired held_lock ctx0) = Return None (Some Canceled)"
  by (simp add: Lock_def Lock_init_def Lock_loop_def c_withDepth_def c_depth_def Broadcast_def
      c_setup_def zero_value_def c_setup_loop_zero c_setup_loop_nonzero draws7_def all_fired_def
      ctx0_def ctx1_def ctx2_def held_lock_def Unlock_def Unlock_default_def Clear_def
      word_sless_alt)

text \<open>
  Claim C8 says that the first \<^verbatim>\<open>Lock\<close>, \<^verbatim>\<open>Unlock\<close> or \<^verbatim>\<open>Clear\<close> on a zero-valued lock creates
  the identifier and the \<^verbatim>\<open>sync.Cond\<close>. Only \<^verbatim>\<open>Lock\<close> calls \<^verbatim>\<open>_setup\<close>: after \<^verbatim>\<open>Unlock\<close> or
  \<^verbatim>\<open>Clear\<close> the lock is still the zero value.
\<close>

theorem no_setup_counterexample:
  "Unlock none_fired zero_value ctx0 = (Return (Some ctx0) None, zero_value)
   \<and> Clear none_fired zero_value ctx0 = (Return (Some ctx0) None, zero_value)
   \<and> id_f zero_value = 0 \<and> cond zero_value = None"
  by (simp add: Unlock_def Clear_def zero_value_def)

text \<open>
  Claim C8, amended. \<^verbatim>\<open>Lock\<close> alone creates the identifier and the \<^verbatim>\<open>sync.Cond\<close>, on its first
  call on a zero-valued lock: after any \<^verbatim>\<open>Lock\<close> the identifier is non-zero, and when it was
  zero before, the \<^verbatim>\<open>sync.Cond\<close> exists and the identifier is one of the random draws;
  \<^verbatim>\<open>Lock\<close> gets that far as soon as some draw is non-zero. \<^verbatim>\<open>Unlock\<close> and \<^verbatim>\<open>Clear\<close> leave a
  zero-valued lock as it is. No method changes an identifier once it is assigned.
\<close>

theorem lazy_setup:
  "(\<forall>r c'. Lock rnd fired me c ctx = Some (r, c') \<longrightarrow>
       id_f c' \<noteq> 0
     \<and> (id_f c = 0 \<longrightarrow> cond c' \<noteq> None \<and> (\<exists>n. id_f c' = rnd n))
     \<and> (id_f c \<noteq> 0 \<longrightarrow> id_f c' = id_f c))
   \<and> ((\<exists>n. rnd n \<noteq> 0) \<longrightarrow> (\<exists>r c'. Lock rnd fired me c ctx = Some (r, c')))
   \<and> Unlock fired zero_value ctx = (Return (Some ctx) None, zero_value)
   \<and> Clear fired zero_value ctx = (Return (Some ctx) None, zero_value)
   \<and> id_f (snd (Unlock fired c ctx)) = id_f c
   \<and> id_f (snd (Clear fired c ctx)) = id_f c
   \<and> id_f (snd (Lock_wake fired stored me c ctx)) = id_f c"
proof (intro conjI allI impI)
  fix r c'
  assume "Lock rnd fired me c ctx = Some (r, c')"
  from Lock_state[OF this] obtain c1 where c1: "Lock_init rnd c = Some c1" "id_f c' = id_f c1"
      "cond c' = None \<longleftrightarrow> cond c1 = None"
    by (elim exE conjE)
  from Lock_init_Some[OF c1(1)] c1(2,3)
  show "id_f c' \<noteq> 0" "id_f c = 0 \<Longrightarrow> cond c' \<noteq> None" "id_f c = 0 \<Longrightarrow> \<exists>n. id_f c' = rnd n"
    "id_f c \<noteq> 0 \<Longrightarrow> id_f c' = id_f c"
    by simp_all
next
  assume "\<exists>n. rnd n \<noteq> 0"
  then obtain n where "rnd n \<noteq> 0" ..
  then obtain c1 where "Lock_init rnd c = Some c1"
    using Lock_init_total[of rnd n c] by blast
  then show "\<exists>r c'. Lock rnd fired me c ctx = Some (r, c')"
    by (rule Lock_total)
next
  show "Unlock fired zero_value ctx = (Return (Some ctx) None, zero_value)"
    by (simp add: Unlock_early zero_value_def)
  show "Clear fired zero_value ctx = (Return (Some ctx) None, zero_value)"
    by (simp add: Clear_def zero_value_def)
  show "id_f (snd (Unlock fired c ctx)) = id_f c"
    using Unlock_state[of fired c ctx] by (cases "Unlock fired c ctx") simp
  show "id_f (snd (Clear fired c ctx)) = id_f c"
    using Clear_state[of fired c ctx] by (cases "Clear fired c ctx") simp
  show "id_f (snd (Lock_wake fired stored me c ctx)) = id_f c"
    using Lock_wake_state[of fired stored me c ctx] by (cases "Lock_wake fired stored me c ctx") simp
qed

theorem lazy_setup_witness:
  "Lock draws7 none_fired 0 zero_value ctx0
     = Some (Return (Some ctx1) None, \<lparr>cond = Some [], held = True, id_f = 7\<rparr>)
   \<and> id_f zero_value = 0 \<and> draws7 0 \<noteq> 0 \<and> draws7 0 = 7
   \<and> id_f \<lparr>cond = Some [], held = True, id_f = 7 :: lockID\<rparr> \<noteq> 0"
proof -
  have l: "Lock draws7 none_fired 0 zero_value ctx0
     = Some (Return (Some ctx1) None, \<lparr>cond = Some [], held = True, id_f = 7\<rparr>)"
    by (simp add: Lock_def Lock_init_def Lock_loop_def c_withDepth_def c_depth_def
      c_setup_def zero_value_def c_setup_loop_zero c_setup_loop_nonzero draws7_def none_fired_def
      ctx0_def ctx1_def)
  have "id_f zero_value = 0" "draws7 0 = 7"
    by (simp_all add: zero_value_def draws7_def)
  with l lazy_setup[of draws7 none_fired 0 zero_value ctx0 True] show ?thesis
    by simp
qed

section \<open>The invariant of the lock\<close>

lemma Lock_init_assigned_id:
  assumes "Lock_init rnd c = Some c1"
  shows "assigned_id rnd c = Some (id_f c1)"
proof (cases "id_f c = 0")
  case True
  with assms show ?thesis
    by (auto simp: Lock_init_def c_setup_def assigned_id_def split: option.splits if_splits)
next
  case False
  with assms show ?thesis
    by (simp add: Lock_init_def assigned_id_def)
qed

lemma assigned_id_same: "id_f c' = id_f c \<Longrightarrow> assigned_id rnd c' = assigned_id rnd c"
  by (simp add: assigned_id_def)

lemma Lock_lock_inv:
  assumes "lock_inv c" and "Lock rnd fired me c ctx = Some (r, c')"
  shows "lock_inv c' \<and> id_f c' \<noteq> 0 \<and> (id_f c \<noteq> 0 \<longrightarrow> id_f c' = id_f c)
       \<and> assigned_id rnd c' = assigned_id rnd c \<and> (held c \<longrightarrow> held c')"
proof -
  from Lock_state[OF assms(2)] obtain c1 where c1: "Lock_init rnd c = Some c1" "id_f c' = id_f c1"
      "cond c' = None \<longleftrightarrow> cond c1 = None"
      "if c_depth c1 ctx = 0 then held c' else held c' = held c1"
    by (elim exE conjE)
  note i = Lock_init_Some[OF c1(1)]
  from i assms(1) have "cond c1 \<noteq> None"
    by (cases "id_f c = 0") (auto simp: lock_inv_def)
  with i c1(2,3) have "lock_inv c'" "id_f c' \<noteq> 0" "id_f c \<noteq> 0 \<longrightarrow> id_f c' = id_f c"
    by (simp_all add: lock_inv_def)
  moreover from Lock_init_assigned_id[OF c1(1)] c1(2) \<open>id_f c' \<noteq> 0\<close>
  have "assigned_id rnd c' = assigned_id rnd c"
    by (simp add: assigned_id_def)
  moreover from i c1(4) have "held c \<longrightarrow> held c'"
    by (cases "c_depth c1 ctx = 0") simp_all
  ultimately show ?thesis by simp
qed

lemma Lock_wake_lock_inv:
  assumes "lock_inv c" and "id_f c \<noteq> 0" and "Lock_wake fired stored me c ctx = (r, c')"
  shows "lock_inv c' \<and> id_f c' = id_f c \<and> (held c \<longrightarrow> held c')"
  using Lock_wake_state[OF assms(3)] assms(1,2) by (simp add: lock_inv_def)

lemma Unlock_lock_inv:
  assumes "lock_inv c" and "Unlock fired c ctx = (r, c')"
  shows "lock_inv c' \<and> id_f c' = id_f c"
  using Unlock_state[OF assms(2)] assms(1) by (auto simp: lock_inv_def)

lemma Clear_lock_inv:
  assumes "lock_inv c" and "Clear fired c ctx = (r, c')"
  shows "lock_inv c' \<and> id_f c' = id_f c \<and> held c' = held c"
  using Clear_state[OF assms(2)] assms(1) by (simp add: lock_inv_def)

lemma watcher_lock_inv:
  assumes "lock_inv c"
  shows "lock_inv (c\<lparr>cond := Some ws\<rparr>)"
  using assms by (simp add: lock_inv_def)

lemma c_withDepth_no_panic:
  "cond c \<noteq> None \<Longrightarrow> fst (c_withDepth fired c ctx v) \<noteq> Panic"
  by (auto simp: c_withDepth_def split: option.splits)

lemma lock_inv_no_panic:
  assumes "lock_inv c"
  shows "fst (Unlock fired c ctx) \<noteq> Panic \<and> fst (Clear fired c ctx) \<noteq> Panic"
proof (cases "id_f c = 0")
  case True
  with assms have "\<not> held c"
    by (auto simp: lock_inv_def)
  with True show ?thesis
    by (simp add: Unlock_early Clear_def)
next
  case False
  with assms obtain ws where ws: "cond c = Some ws"
    by (auto simp: lock_inv_def)
  then have "\<And>c' v. cond c' \<noteq> None \<Longrightarrow> fst (c_withDepth fired c' ctx v) \<noteq> Panic"
    by (simp add: c_withDepth_no_panic)
  with ws show ?thesis
    by (simp add: Unlock_def Unlock_case1_def Unlock_default_def Clear_def Let_def)
qed

lemma reach_inv:
  assumes "reach c parked"
  shows "lock_inv c \<and> (\<forall>t ctx. parked t = Some ctx \<longrightarrow> id_f c \<noteq> 0)"
  using assms
proof (induction rule: reach.induct)
  case reach_zero
  show ?case by (simp add: lock_inv_def zero_value_def)
next
  case (reach_Lock c parked me rnd fired ctx r c')
  from Lock_lock_inv[OF _ reach_Lock.hyps(3)] reach_Lock.IH show ?case
    by (simp add: park_def)
next
  case (reach_Lock_wake c parked me ctx ws fired stored r c')
  from reach_Lock_wake have "lock_inv c" "id_f c \<noteq> 0"
    by blast+
  from Lock_wake_lock_inv[OF this reach_Lock_wake.hyps(5)] \<open>id_f c \<noteq> 0\<close> show ?case
    by (simp add: park_def)
next
  case (reach_Unlock c parked fired ctx r c')
  from Unlock_lock_inv[OF _ reach_Unlock.hyps(2)] reach_Unlock.IH show ?case
    by simp
next
  case (reach_Clear c parked fired ctx r c')
  from Clear_lock_inv[OF _ reach_Clear.hyps(2)] reach_Clear.IH show ?case
    by simp
next
  case (reach_watcher c parked ws)
  then show ?case
    by (simp add: lock_inv_def)
qed

text \<open>
  Claim C10. In every state that calls of \<^verbatim>\<open>Lock\<close>, \<^verbatim>\<open>Unlock\<close> and \<^verbatim>\<open>Clear\<close> can reach from the
  zero value, a held lock has a non-zero identifier and its \<^verbatim>\<open>sync.Cond\<close>: \<^verbatim>\<open>Unlock\<close> and \<^verbatim>\<open>Clear\<close>
  on a held lock read and write the depth under a real key and signal an existing
  \<^verbatim>\<open>sync.Cond\<close>, though they never initialise anything themselves; in no reachable state
  does either of them panic on the nil pointer.
\<close>

theorem held_implies_initialised:
  assumes "reach c parked"
  shows "(held c \<longrightarrow> id_f c \<noteq> 0 \<and> cond c \<noteq> None)
       \<and> fst (Unlock fired c ctx) \<noteq> Panic \<and> fst (Clear fired c ctx) \<noteq> Panic"
proof -
  from reach_inv[OF assms] have i: "lock_inv c"
    by simp
  then have "held c \<longrightarrow> id_f c \<noteq> 0 \<and> cond c \<noteq> None"
    by (simp add: lock_inv_def)
  with lock_inv_no_panic[OF i, of fired ctx] show ?thesis
    by simp
qed

theorem held_implies_initialised_witness:
  "reach \<lparr>cond = Some [], held = True, id_f = 7\<rparr> nobody
   \<and> held \<lparr>cond = Some [], held = True, id_f = 7 :: lockID\<rparr>
   \<and> id_f \<lparr>cond = Some [], held = True, id_f = 7 :: lockID\<rparr> \<noteq> 0
   \<and> cond \<lparr>cond = Some [], held = True, id_f = 7 :: lockID\<rparr> \<noteq> None"
proof -
  have n: "nobody = (\<lambda>t. None)"
    by (rule ext) (simp add: nobody_def)
  have l: "Lock draws7 none_fired 0 zero_value ctx0
     = Some (Return (Some ctx1) None, \<lparr>cond = Some [], held = True, id_f = 7\<rparr>)"
    by (simp add: Lock_def Lock_init_def Lock_loop_def c_withDepth_def c_depth_def
      c_setup_def zero_value_def c_setup_loop_zero c_setup_loop_nonzero draws7_def none_fired_def
      ctx0_def ctx1_def)
  have "reach \<lparr>cond = Some [], held = True, id_f = 7\<rparr> (park (Return (Some ctx1) None) 0 ctx0 (\<lambda>t. None))"
    by (rule reach_Lock[OF reach_zero _ l]) simp
  then have r: "reach \<lparr>cond = Some [], held = True, id_f = 7\<rparr> nobody"
    by (simp add: park_def n)
  from held_implies_initialised[OF r] r show ?thesis
    by simp
qed

section \<open>Mutual exclusion\<close>

lemma of_nat_nest_inj:
  assumes "n \<le> max_nest" and "m \<le> max_nest"
  shows "(of_nat n :: go_int) = of_nat m \<longleftrightarrow> n = m"
proof -
  have "n < 2 ^ 64" "m < 2 ^ 64"
    using assms by (simp_all add: max_nest_def)
  then have "take_bit 64 n = n" "take_bit 64 m = m"
    by (simp_all add: take_bit_nat_eq_self)
  then show ?thesis
    by (simp add: word_of_nat_eq_iff)
qed

lemma of_nat_nest_nonzero: "0 < n \<Longrightarrow> n \<le> max_nest \<Longrightarrow> (of_nat n :: go_int) \<noteq> 0"
  using of_nat_nest_inj[of n 0] by simp

lemma of_nat_nest_one: "n \<le> max_nest \<Longrightarrow> (of_nat n :: go_int) = 1 \<longleftrightarrow> n = 1"
  using of_nat_nest_inj[of n 1] by (simp add: max_nest_def)

lemma c_depth_depth_under: "c_depth c ctx = depth_under (id_f c) ctx"
  by (simp add: c_depth_def depth_under_def)

lemma nest_ok_same_id: "id_f c' = id_f c \<Longrightarrow> nest_ok c' xs = nest_ok c xs"
  by (induction xs) (simp_all add: c_depth_depth_under)

lemma path_ok_frame:
  assumes "path_ok rnd c q" and "lock_inv c" and "assigned_id rnd c' = assigned_id rnd c"
    and "id_f c \<noteq> 0 \<longrightarrow> id_f c' = id_f c" and "p_nest q \<noteq> [] \<longrightarrow> held c'"
  shows "path_ok rnd c' q"
proof (cases "p_nest q = []")
  case True
  with assms show ?thesis
    by (auto simp: path_ok_def)
next
  case False
  with assms have "id_f c' = id_f c"
    by (simp add: path_ok_def lock_inv_def)
  with assms nest_ok_same_id[OF this, of "p_nest q"] show ?thesis
    by (auto simp: path_ok_def)
qed

lemma c_withDepth_result:
  assumes "c_withDepth fired c ctx v = (r, c')"
  shows "(r = Return (Some (WithValue ctx (LockKey (id_f c)) (IntVal v))) None \<and> c' = c)
       \<or> ((\<forall>p. after_Lock r p = p\<lparr>p_parked := False\<rparr>) \<and> r \<noteq> Blocked)"
  using assms by (auto simp: c_withDepth_def split: option.splits)

lemma Lock_loop_result:
  assumes "Lock_loop fired me c ctx d = (r, c')"
  shows "(held c \<and> (r = Blocked \<or> r = Panic))
       \<or> (\<not> held c \<and> c_withDepth fired (c\<lparr>held := True\<rparr>) ctx (d + 1) = (r, c'))"
  using assms by (cases "held c") (auto simp: Lock_loop_def split: option.splits)

lemma path_ok_unparked:
  "path_ok rnd c p \<Longrightarrow> path_ok rnd c (p\<lparr>p_parked := False\<rparr>)"
  by (simp add: path_ok_def)

lemma path_ok_parked:
  "path_ok rnd c p \<Longrightarrow> p_nest p = [] \<Longrightarrow> id_f c \<noteq> 0 \<Longrightarrow> path_ok rnd c (p\<lparr>p_parked := True\<rparr>)"
  by (simp add: path_ok_def)

lemma path_ok_push:
  assumes "path_ok rnd c p" and "held c" and "length (p_nest p) < max_nest"
    and "c_depth c ctx' = of_nat (Suc (length (p_nest p)))"
  shows "path_ok rnd c (p\<lparr>p_nest := ctx' # p_nest p, p_parked := False\<rparr>)"
  using assms by (simp add: path_ok_def)

lemma path_ok_pop:
  assumes "path_ok rnd c p" and "p_nest p = ctx # rest" and "rest \<noteq> [] \<longrightarrow> held c'"
    and "id_f c' = id_f c"
  shows "path_ok rnd c' (p\<lparr>p_nest := rest\<rparr>)"
  using assms nest_ok_same_id[OF assms(4), of rest]
  by (auto simp: path_ok_def assigned_id_def)

lemma Lock_loop_path:
  assumes "lock_inv c" and "id_f c \<noteq> 0" and "path_ok rnd c p" and "p_nest p = []"
    and "Lock_loop fired me c (p_base p) 0 = (r, c')"
  shows "path_ok rnd c' (after_Lock r p) \<and> (p_nest (after_Lock r p) \<noteq> [] \<longrightarrow> \<not> held c)"
proof -
  from Lock_loop_state[OF assms(5)] have st: "id_f c' = id_f c" "held c'"
    by simp_all
  from st have fr: "path_ok rnd c' p"
    using path_ok_frame[OF assms(3,1), of c'] assigned_id_same[of c' c rnd] by simp
  from Lock_loop_result[OF assms(5)] show ?thesis
  proof (elim disjE conjE)
    assume "held c" "r = Blocked"
    with fr assms(2,4) st show ?thesis
      by (simp add: path_ok_parked)
  next
    assume "held c" "r = Panic"
    with fr assms(4) show ?thesis
      by (simp add: path_ok_unparked)
  next
    assume h: "\<not> held c" and w: "c_withDepth fired (c\<lparr>held := True\<rparr>) (p_base p) (0 + 1) = (r, c')"
    from c_withDepth_result[OF w] show ?thesis
    proof (elim disjE conjE)
      assume r: "r = Return (Some (WithValue (p_base p) (LockKey (id_f (c\<lparr>held := True\<rparr>))) (IntVal (0 + 1)))) None"
        and c': "c' = c\<lparr>held := True\<rparr>"
      have "c_depth c' (WithValue (p_base p) (LockKey (id_f c')) (IntVal 1)) = of_nat (Suc (length (p_nest p)))"
        using assms(4) by simp
      with fr st assms(4) c' r h show ?thesis
        using path_ok_push[of rnd c' p "WithValue (p_base p) (LockKey (id_f c')) (IntVal 1)"]
        by (simp add: max_nest_def)
    next
      assume "\<forall>q. after_Lock r q = q\<lparr>p_parked := False\<rparr>"
      with fr assms(4) show ?thesis
        by (simp add: path_ok_unparked)
    qed
  qed
qed

lemma Lock_path:
  assumes "lock_inv c" and "path_ok rnd c p" and "\<not> p_parked p"
    and "length (p_nest p) < max_nest" and "Lock rnd fired me c (cur p) = Some (r, c')"
  shows "path_ok rnd c' (after_Lock r p)
       \<and> (p_nest (after_Lock r p) \<noteq> [] \<longrightarrow> p_nest p \<noteq> [] \<or> \<not> held c)"
proof -
  from Lock_state[OF assms(5)] obtain c1 where c1: "Lock_init rnd c = Some c1"
    by (elim exE conjE)
  note i = Lock_init_Some[OF c1]
  from Lock_init_assigned_id[OF c1] have a: "assigned_id rnd c = Some (id_f c1)" .
  have li: "lock_inv c1"
    using i assms(1) by (cases "id_f c = 0") (auto simp: lock_inv_def)
  have "assigned_id rnd c1 = assigned_id rnd c"
    using a i by (simp add: assigned_id_def)
  moreover have "id_f c \<noteq> 0 \<longrightarrow> id_f c1 = id_f c"
    using i by simp
  moreover have "p_nest p \<noteq> [] \<longrightarrow> held c1"
    using i assms(2) by (simp add: path_ok_def)
  ultimately have p1: "path_ok rnd c1 p"
    by (rule path_ok_frame[OF assms(2,1)])
  show ?thesis
  proof (cases "p_nest p")
    case Nil
    with assms(2) a have "c_depth c1 (cur p) = 0" "cur p = p_base p"
      by (simp_all add: path_ok_def c_depth_depth_under cur_def)
    with assms(5) c1 have "Lock_loop fired me c1 (p_base p) 0 = (r, c')"
      by (simp add: Lock_first)
    from Lock_loop_path[OF li _ p1 Nil this] i show ?thesis
      by simp
  next
    case (Cons x rest)
    with assms(2) have h: "held c" "c_depth c x = of_nat (Suc (length rest))" "cur p = x"
      by (simp_all add: path_ok_def cur_def)
    with assms(1) have "id_f c \<noteq> 0"
      by (simp add: lock_inv_def)
    with c1 have "c1 = c"
      by (simp add: Lock_init_def)
    from assms(4) Cons have "c_depth c x \<noteq> 0"
      using of_nat_nest_nonzero[of "Suc (length rest)"] h(2) by simp
    with assms(5) c1 \<open>c1 = c\<close> h(3)
    have w: "c_withDepth fired c x (c_depth c x + 1) = (r, c')"
      by (simp add: Lock_nested)
    from c_withDepth_state[OF w] have st: "id_f c' = id_f c" "held c' = held c"
      by simp_all
    from st h(1) have fr: "path_ok rnd c' p"
      using path_ok_frame[OF assms(2,1), of c'] assigned_id_same[of c' c rnd] by simp
    from c_withDepth_result[OF w] show ?thesis
    proof (elim disjE conjE)
      assume r: "r = Return (Some (WithValue x (LockKey (id_f c)) (IntVal (c_depth c x + 1)))) None"
        and c': "c' = c"
      have "c_depth c (WithValue x (LockKey (id_f c)) (IntVal (c_depth c x + 1)))
              = of_nat (Suc (length (p_nest p)))"
        using h(2) Cons by simp
      with assms(2,4) h(1) r c' Cons show ?thesis
        using path_ok_push[of rnd c p "WithValue x (LockKey (id_f c)) (IntVal (c_depth c x + 1))"]
        by simp
    next
      assume "\<forall>q. after_Lock r q = q\<lparr>p_parked := False\<rparr>"
      with fr Cons show ?thesis
        by (simp add: path_ok_unparked)
    qed
  qed
qed

lemma Lock_wake_path:
  assumes "lock_inv c" and "path_ok rnd c p" and "p_parked p"
    and "Lock_wake fired stored me c (cur p) = (r, c')"
  shows "path_ok rnd c' (after_Lock r p) \<and> (p_nest (after_Lock r p) \<noteq> [] \<longrightarrow> \<not> held c)"
proof -
  from assms(2,3) have n: "p_nest p = []" "id_f c \<noteq> 0" "cur p = p_base p"
    by (simp_all add: path_ok_def cur_def)
  show ?thesis
  proof (cases "c_wait_result fired stored (cur p)")
    case None
    with assms(4) n have "Lock_loop fired me c (p_base p) 0 = (r, c')"
      by (simp add: Lock_wake_loop)
    from Lock_loop_path[OF assms(1) n(2) assms(2) n(1) this] show ?thesis .
  next
    case (Some e)
    with assms(4) have "r = Return (Some (cur p)) (Some e)" "c' = c"
      by (simp_all add: Lock_wake_stored)
    with assms(2) n show ?thesis
      by (simp add: path_ok_unparked)
  qed
qed

lemma Unlock_path:
  assumes "lock_inv c" and "path_ok rnd c p" and "p_nest p = ctx # rest"
    and "Unlock fired c ctx = (r, c')"
  shows "path_ok rnd c' (p\<lparr>p_nest := rest\<rparr>) \<and> (rest \<noteq> [] \<longrightarrow> held c')"
proof -
  from assms(2,3) have h: "held c" "c_depth c ctx = of_nat (Suc (length rest))"
      "Suc (length rest) \<le> max_nest"
    by (simp_all add: path_ok_def)
  with assms(1) have i: "id_f c \<noteq> 0"
    by (simp add: lock_inv_def)
  from Unlock_state[OF assms(4)] have st: "id_f c' = id_f c"
    by simp
  have "rest \<noteq> [] \<longrightarrow> held c'"
  proof
    assume "rest \<noteq> []"
    then have "Suc (length rest) \<noteq> 1" "0 < Suc (length rest)"
      by simp_all
    with h(2,3) have "c_depth c ctx \<noteq> 0" "c_depth c ctx \<noteq> 1"
      using of_nat_nest_nonzero[of "Suc (length rest)"] of_nat_nest_one[of "Suc (length rest)"]
      by simp_all
    with assms(4) i have "Unlock_default fired c ctx (c_depth c ctx) = (r, c')"
      by (simp add: Unlock_def)
    from Unlock_default_state[OF this] h(1) show "held c'"
      by simp
  qed
  with path_ok_pop[OF assms(2,3) _ st] show ?thesis
    by simp
qed

lemma sys_inv_update:
  assumes "sys_inv rnd s" and "lock_inv c'"
    and "assigned_id rnd c' = assigned_id rnd (sys_lock s)"
    and "id_f (sys_lock s) \<noteq> 0 \<longrightarrow> id_f c' = id_f (sys_lock s)"
    and "path_ok rnd c' p'"
    and "\<forall>t'. t' \<noteq> t \<longrightarrow> p_nest (sys_paths s t') \<noteq> [] \<longrightarrow> held c' \<and> p_nest p' = []"
  shows "sys_inv rnd (s\<lparr>sys_lock := c', sys_paths := (sys_paths s)(t := p')\<rparr>)"
proof -
  have paths: "\<forall>t'. path_ok rnd c' (((sys_paths s)(t := p')) t')"
  proof
    fix t'
    show "path_ok rnd c' (((sys_paths s)(t := p')) t')"
    proof (cases "t' = t")
      case True
      with assms(5) show ?thesis by simp
    next
      case False
      from assms(1) have "path_ok rnd (sys_lock s) (sys_paths s t')" "lock_inv (sys_lock s)"
        by (simp_all add: sys_inv_def)
      from path_ok_frame[OF this assms(3,4)] assms(6) False show ?thesis
        by simp
    qed
  qed
  have excl: "\<forall>t1 t2. p_nest (((sys_paths s)(t := p')) t1) \<noteq> []
      \<longrightarrow> p_nest (((sys_paths s)(t := p')) t2) \<noteq> [] \<longrightarrow> t1 = t2"
  proof (intro allI impI)
    fix t1 t2
    assume n: "p_nest (((sys_paths s)(t := p')) t1) \<noteq> []"
      "p_nest (((sys_paths s)(t := p')) t2) \<noteq> []"
    show "t1 = t2"
    proof (cases "t1 = t")
      case True
      with n assms(6) show ?thesis
        by (cases "t2 = t") auto
    next
      case False
      with n assms(6) have "t2 \<noteq> t"
        by auto
      with n False assms(1) show ?thesis
        by (simp add: sys_inv_def)
    qed
  qed
  have sel: "sys_lock (s\<lparr>sys_lock := c', sys_paths := (sys_paths s)(t := p')\<rparr>) = c'"
    "sys_paths (s\<lparr>sys_lock := c', sys_paths := (sys_paths s)(t := p')\<rparr>) = (sys_paths s)(t := p')"
    by simp_all
  from paths excl assms(2) show ?thesis
    unfolding sys_inv_def sel by blast
qed

lemma sys_inv_lock:
  assumes "sys_inv rnd s" and "lock_inv c'" and "id_f c' = id_f (sys_lock s)"
    and "held (sys_lock s) \<longrightarrow> held c'"
  shows "sys_inv rnd (s\<lparr>sys_lock := c'\<rparr>)"
proof -
  have "\<forall>t. path_ok rnd c' (sys_paths s t)"
  proof
    fix t
    from assms(1) have p: "path_ok rnd (sys_lock s) (sys_paths s t)" "lock_inv (sys_lock s)"
      by (simp_all add: sys_inv_def)
    with assms(4) have "p_nest (sys_paths s t) \<noteq> [] \<longrightarrow> held c'"
      by (simp add: path_ok_def)
    with path_ok_frame[OF p assigned_id_same[OF assms(3)]] assms(3)
    show "path_ok rnd c' (sys_paths s t)"
      by simp
  qed
  moreover have "sys_lock (s\<lparr>sys_lock := c'\<rparr>) = c'" "sys_paths (s\<lparr>sys_lock := c'\<rparr>) = sys_paths s"
    by simp_all
  ultimately show ?thesis
    using assms(1,2) unfolding sys_inv_def by metis
qed

lemma initial_sys_inv:
  assumes "initial rnd s"
  shows "sys_inv rnd s"
proof -
  have "\<forall>t. path_ok rnd zero_value (sys_paths s t)"
  proof
    fix t
    have "\<forall>i. assigned_id rnd zero_value = Some i \<longrightarrow> depth_under i (p_base (sys_paths s t)) = 0"
    proof (intro allI impI)
      fix i
      assume "assigned_id rnd zero_value = Some i"
      then have "Lock_init rnd zero_value = Some (zero_value\<lparr>cond := Some [], id_f := i\<rparr>)"
        by (simp add: assigned_id_def Lock_init_def c_setup_def zero_value_def)
      with assms have "c_depth (zero_value\<lparr>cond := Some [], id_f := i\<rparr>) (p_base (sys_paths s t)) = 0"
        unfolding initial_def by blast
      then show "depth_under i (p_base (sys_paths s t)) = 0"
        by (simp add: c_depth_depth_under)
    qed
    with assms show "path_ok rnd zero_value (sys_paths s t)"
      unfolding path_ok_def initial_def by (simp add: zero_value_def)
  qed
  moreover have "lock_inv zero_value"
    by (simp add: lock_inv_def zero_value_def)
  ultimately show ?thesis
    using assms unfolding sys_inv_def initial_def by simp
qed

lemma step_sys_inv:
  assumes "step rnd s s'" and "sys_inv rnd s"
  shows "sys_inv rnd s'"
  using assms
proof (cases rule: step.cases)
  case (step_Lock p t r c')
  from assms(2) have li: "lock_inv (sys_lock s)" and po: "path_ok rnd (sys_lock s) p"
    using step_Lock(2) by (simp_all add: sys_inv_def)
  note L = Lock_lock_inv[OF li step_Lock(5)]
  note P = Lock_path[OF li po step_Lock(3,4,5)]
  have "held c' \<and> p_nest (after_Lock r p) = []"
    if "t' \<noteq> t" and "p_nest (sys_paths s t') \<noteq> []" for t'
  proof -
    from assms(2) that have "held (sys_lock s)" "p_nest p = []"
      using step_Lock(2) by (auto simp: sys_inv_def path_ok_def)
    with L P show ?thesis
      by auto
  qed
  with L P show ?thesis
    unfolding step_Lock(1) by (intro sys_inv_update[OF assms(2)]) simp_all
next
  case (step_Lock_wake p t ws stored r c')
  from assms(2) have li: "lock_inv (sys_lock s)" and po: "path_ok rnd (sys_lock s) p"
    using step_Lock_wake(2) by (simp_all add: sys_inv_def)
  from po step_Lock_wake(3) have i: "id_f (sys_lock s) \<noteq> 0"
    by (simp add: path_ok_def)
  note L = Lock_wake_lock_inv[OF li i step_Lock_wake(6)]
  note P = Lock_wake_path[OF li po step_Lock_wake(3,6)]
  have "held c' \<and> p_nest (after_Lock r p) = []"
    if "t' \<noteq> t" and "p_nest (sys_paths s t') \<noteq> []" for t'
  proof -
    from assms(2) that have "held (sys_lock s)"
      by (auto simp: sys_inv_def path_ok_def)
    with L P show ?thesis
      by auto
  qed
  with L P assigned_id_same[of c' "sys_lock s" rnd] show ?thesis
    unfolding step_Lock_wake(1) by (intro sys_inv_update[OF assms(2)]) simp_all
next
  case (step_Unlock p t ctx rest r c')
  from assms(2) have li: "lock_inv (sys_lock s)" and po: "path_ok rnd (sys_lock s) p"
    using step_Unlock(2) by (simp_all add: sys_inv_def)
  note L = Unlock_lock_inv[OF li step_Unlock(5)]
  note P = Unlock_path[OF li po step_Unlock(4,5)]
  have "held c' \<and> p_nest (p\<lparr>p_nest := rest\<rparr>) = []"
    if "t' \<noteq> t" and "p_nest (sys_paths s t') \<noteq> []" for t'
  proof -
    from assms(2) that(2) step_Unlock(2,4) have "t' = t"
      by (simp add: sys_inv_def)
    with that(1) show ?thesis
      by simp
  qed
  with L P assigned_id_same[of c' "sys_lock s" rnd] show ?thesis
    unfolding step_Unlock(1) by (intro sys_inv_update[OF assms(2)]) simp_all
next
  case (step_Clear p t r c')
  from assms(2) have li: "lock_inv (sys_lock s)"
    by (simp add: sys_inv_def)
  from Clear_lock_inv[OF li step_Clear(4)] show ?thesis
    unfolding step_Clear(1) by (intro sys_inv_lock[OF assms(2)]) simp_all
next
  case (step_cancel n e)
  with assms(2) show ?thesis
    by (simp add: sys_inv_def)
next
  case (step_watcher ws)
  from assms(2) have li: "lock_inv (sys_lock s)"
    by (simp add: sys_inv_def)
  from watcher_lock_inv[OF li] show ?thesis
    unfolding step_watcher(1) by (intro sys_inv_lock[OF assms(2)]) simp_all
qed

lemma run_sys_inv: "run rnd s \<Longrightarrow> sys_inv rnd s"
  by (induction rule: run.induct) (simp_all add: initial_sys_inv step_sys_inv)

text \<open>
  Claim C9. Call paths that all start at depth 0 for the lock, and that call \<^verbatim>\<open>Lock\<close> and
  the matching \<^verbatim>\<open>Unlock\<close> as described above, are never two at a time between a successful
  \<^verbatim>\<open>Lock\<close> and its matching \<^verbatim>\<open>Unlock\<close>; and while one of them is, the lock is held, so that
  no other path gets past the loop of \<^verbatim>\<open>Lock\<close>. Every step is taken under the mutex, which
  is what makes the test of \<open>held\<close> and its setting one step.
\<close>

theorem mutual_exclusion:
  assumes "run rnd s" and "t \<noteq> t'" and "p_nest (sys_paths s t) \<noteq> []"
  shows "p_nest (sys_paths s t') = [] \<and> held (sys_lock s)"
  using run_sys_inv[OF assms(1)] assms(2,3) by (auto simp: sys_inv_def path_ok_def)

theorem mutual_exclusion_witness:
  "run draws7 one_inside \<and> (0 :: tid) \<noteq> 1 \<and> p_nest (sys_paths one_inside 0) \<noteq> []
   \<and> p_nest (sys_paths one_inside 1) = [] \<and> held (sys_lock one_inside)"
proof -
  have i: "Lock_init draws7 zero_value = Some \<lparr>cond = Some [], held = False, id_f = 7\<rparr>"
    by (simp add: Lock_init_def c_setup_def zero_value_def c_setup_loop_zero c_setup_loop_nonzero
        draws7_def)
  have "initial draws7 start"
    by (simp add: initial_def i start_def fresh_paths_def fresh_path_def c_depth_def ctx0_def)
  then have r0: "run draws7 start"
    by (rule run_initial)
  have l0: "Lock draws7 (sys_fired start) 0 (sys_lock start) (cur (sys_paths start 0))
      = Some (Return (Some ctx1) None, \<lparr>cond = Some [], held = True, id_f = 7\<rparr>)"
    by (simp add: Lock_def i start_def fresh_paths_def fresh_path_def cur_def Lock_loop_def
        c_withDepth_def c_depth_def ctx0_def ctx1_def none_fired_def)
  have s1: "step draws7 start
     (start\<lparr>sys_lock := \<lparr>cond = Some [], held = True, id_f = 7\<rparr>,
        sys_paths := (sys_paths start)(0 := after_Lock (Return (Some ctx1) None) (sys_paths start 0))\<rparr>)"
    by (rule step_Lock[OF refl _ _ l0])
      (simp_all add: start_def fresh_paths_def fresh_path_def max_nest_def)
  define mid where "mid = start\<lparr>sys_lock := \<lparr>cond = Some [], held = True, id_f = 7\<rparr>,
        sys_paths := (sys_paths start)(0 := after_Lock (Return (Some ctx1) None) (sys_paths start 0))\<rparr>"
  from r0 s1 have r1: "run draws7 mid"
    unfolding mid_def by (rule run_step)
  have l1: "Lock draws7 (sys_fired mid) 1 (sys_lock mid) (cur (sys_paths mid 1))
      = Some (Blocked, \<lparr>cond = Some [1], held = True, id_f = 7\<rparr>)"
    by (simp add: Lock_def Lock_init_def mid_def start_def fresh_paths_def fresh_path_def cur_def
        Lock_loop_def Wait_def c_depth_def ctx0_def)
  have s2: "step draws7 mid
     (mid\<lparr>sys_lock := \<lparr>cond = Some [1], held = True, id_f = 7\<rparr>,
        sys_paths := (sys_paths mid)(1 := after_Lock Blocked (sys_paths mid 1))\<rparr>)"
    by (rule step_Lock[OF refl _ _ l1])
      (simp_all add: mid_def start_def fresh_paths_def fresh_path_def max_nest_def)
  have "mid\<lparr>sys_lock := \<lparr>cond = Some [1], held = True, id_f = 7\<rparr>,
        sys_paths := (sys_paths mid)(1 := after_Lock Blocked (sys_paths mid 1))\<rparr> = one_inside"
    by (simp add: mid_def start_def one_inside_def fresh_paths_def fresh_path_def)
  with run_step[OF r1 s2] have r: "run draws7 one_inside"
    by simp
  have n: "p_nest (sys_paths one_inside 0) \<noteq> []" "(0 :: tid) \<noteq> 1"
    by (simp_all add: one_inside_def)
  from mutual_exclusion[OF r n(2,1)] r n show ?thesis
    by simp
qed

end
